theory Spec2Isabelle
  imports
    Main
    "HOL-Library.Char_ord"
    "HOL-Library.List_Lexorder"
    "HOL-Library.Product_Lexorder"
    "HOL-Library.Multiset"
begin

section \<open>Python strings\<close>

text \<open>
  A Python \<open>str\<close> is modelled as a \<open>string\<close> (a list of \<open>char\<close>), each \<open>char\<close> read as the
  code point of the same number, so the model of the handler covers the code points 0 to
  255 (ASCII and Latin-1). In that range \<open>str.lower\<close> maps one character to one character:
  the letters \<open>A\<close> to \<open>Z\<close> and the Latin-1 capitals 0xC0 to 0xDE (0xD7, the multiplication
  sign, apart) move up by 32, everything else stays. Beyond Latin-1 this is no longer so;
  the filter over all of Unicode is given in its own section below, and the two are shown
  to agree on Latin-1 text.
\<close>

definition lower_char :: "char \<Rightarrow> char" where
  "lower_char c =
     (let n = (of_char c :: nat) in
      if (65 \<le> n \<and> n \<le> 90) \<or> (192 \<le> n \<and> n \<le> 222 \<and> n \<noteq> 215)
      then char_of (n + 32) else c)"

definition lower :: "string \<Rightarrow> string" where
  "lower s = map lower_char s"

text \<open>
  The characters \<open>str.strip()\<close> removes (those with \<open>str.isspace\<close>): tab to carriage
  return, the separators 0x1C to 0x1F, the space, NEL (0x85) and the no-break space (0xA0).
\<close>

definition isspace :: "char \<Rightarrow> bool" where
  "isspace c =
     (let n = (of_char c :: nat) in
      (9 \<le> n \<and> n \<le> 13) \<or> (28 \<le> n \<and> n \<le> 32) \<or> n = 133 \<or> n = 160)"

definition lstrip :: "string \<Rightarrow> string" where
  "lstrip s = dropWhile isspace s"

definition rstrip :: "string \<Rightarrow> string" where
  "rstrip s = rev (dropWhile isspace (rev s))"

definition strip :: "string \<Rightarrow> string" where
  "strip s = lstrip (rstrip s)"

text \<open>\<open>s.replace(old, new)\<close> for a one-character \<open>old\<close>.\<close>

definition replace :: "'a \<Rightarrow> 'a list \<Rightarrow> 'a list \<Rightarrow> 'a list" where
  "replace old new s = concat (map (\<lambda>c. if c = old then new else [c]) s)"

definition startswith :: "'a list \<Rightarrow> 'a list \<Rightarrow> bool" where
  "startswith s p = (take (length p) s = p)"

definition endswith :: "string \<Rightarrow> string \<Rightarrow> bool" where
  "endswith s e = (length e \<le> length s \<and> drop (length s - length e) s = e)"

text \<open>
  \<open>s.index(c)\<close> for a one-character \<open>c\<close>: the smallest index at which \<open>c\<close> occurs;
  \<open>None\<close> stands for the \<open>ValueError\<close> that Python raises when there is none.
\<close>

fun str_index :: "'a list \<Rightarrow> 'a \<Rightarrow> nat option" where
  "str_index [] c = None"
| "str_index (x # xs) c = (if x = c then Some 0 else map_option Suc (str_index xs c))"

section \<open>The fuzzy filter\<close>

text \<open>
  The \<^verbatim>\<open>for filter_char in filter_\<close> loop of \<open>matches_filter\<close>: the first argument is the
  variable \<open>rest\<close>, the second the filter characters not yet visited. A \<open>ValueError\<close>
  of \<open>rest.index\<close> is caught and returns \<open>False\<close>; otherwise \<open>rest = rest[index:]\<close>.
\<close>

fun match_chars :: "'a list \<Rightarrow> 'a list \<Rightarrow> bool" where
  "match_chars rest [] = True"
| "match_chars rest (filter_char # cs) =
     (case str_index rest filter_char of
        None \<Rightarrow> False
      | Some index \<Rightarrow> match_chars (drop index rest) cs)"

text \<open>
  The filter is a \<open>str\<close> or \<open>None\<close> (the event's argument may be absent); \<^verbatim>\<open>if filter_:\<close>
  takes the first branch for a non-empty string only.
\<close>

definition normalize_filter :: "string \<Rightarrow> string" where
  "normalize_filter f = strip (replace CHR '' '' [] (lower f))"

definition matches_filter :: "string \<Rightarrow> string option \<Rightarrow> bool" where
  "matches_filter file_name filter' =
     (case filter' of
        Some f \<Rightarrow>
          if f \<noteq> [] then match_chars (lower file_name) (normalize_filter f)
          else \<not> startswith file_name ''.''
      | None \<Rightarrow> \<not> startswith file_name ''.'')"

subsection \<open>The matcher as the specification words it\<close>

text \<open>
  A cursor into the lower-cased name, starting at 0: for each filter character the first
  occurrence at or after the cursor is looked up; the cursor moves to that index (not the
  next one); a character with no such occurrence fails the match.
\<close>

definition find_from :: "string \<Rightarrow> nat \<Rightarrow> char \<Rightarrow> nat option" where
  "find_from s cursor c = List.find (\<lambda>i. s ! i = c) [cursor..<length s]"

fun cursor_scan :: "string \<Rightarrow> nat \<Rightarrow> string \<Rightarrow> bool" where
  "cursor_scan s cursor [] = True"
| "cursor_scan s cursor (c # cs) =
     (case find_from s cursor c of
        None \<Rightarrow> False
      | Some i \<Rightarrow> cursor_scan s i cs)"


section \<open>Text beyond Latin-1\<close>

text \<open>
  A Python \<open>str\<close> holds code points of all of Unicode. Beyond Latin-1 \<open>str.lower\<close> is no
  longer a map of single characters: a character may lower to up to three characters, and
  the Greek capital sigma (U+03A3) lowers to the final sigma (U+03C2) when a cased letter
  stands before it and none after it (case-ignorable characters skipped on both sides), and
  to the small sigma (U+03C3) otherwise. So the filter is given once more over lists of code
  points, with the same loop and the same order of the three steps of the normalization.

  What the interpreter takes from its Unicode database is a parameter: the full lower-case
  mapping of a code point, and the properties \<open>Cased\<close> and \<open>Case_Ignorable\<close>. Below 256 the
  mapping is the one of \<open>lower_char\<close>. The code point 32 is the space, 46 the full stop;
  \<open>codes\<close> gives the code points of a Latin-1 text.
\<close>

definition codes :: "string \<Rightarrow> nat list" where
  "codes s = map of_char s"

record unicode_db =
  to_lower_full :: "nat \<Rightarrow> nat list"
  is_cased :: "nat \<Rightarrow> bool"
  is_case_ignorable :: "nat \<Rightarrow> bool"

definition lower_full :: "unicode_db \<Rightarrow> nat \<Rightarrow> nat list" where
  "lower_full db c =
     (if c < 256 then [of_char (lower_char (char_of c))] else to_lower_full db c)"

definition final_sigma :: "unicode_db \<Rightarrow> nat list \<Rightarrow> nat list \<Rightarrow> bool" where
  "final_sigma db before after =
     (case dropWhile (is_case_ignorable db) (rev before) of
        [] \<Rightarrow> False
      | c # _ \<Rightarrow>
          is_cased db c
          \<and> (case dropWhile (is_case_ignorable db) after of
               [] \<Rightarrow> True
             | d # _ \<Rightarrow> \<not> is_cased db d))"

fun do_lower :: "unicode_db \<Rightarrow> nat list \<Rightarrow> nat list \<Rightarrow> nat list" where
  "do_lower db before [] = []"
| "do_lower db before (c # after) =
     (if c = 0x3A3 then [if final_sigma db before after then 0x3C2 else 0x3C3]
      else lower_full db c)
     @ do_lower db (before @ [c]) after"

definition lower_u :: "unicode_db \<Rightarrow> nat list \<Rightarrow> nat list" where
  "lower_u db s = do_lower db [] s"

text \<open>
  The characters of all of Unicode that \<open>str.strip()\<close> removes: those of \<open>isspace\<close>, and
  beyond Latin-1 the Ogham space mark, the spaces U+2000 to U+200A, the line and paragraph
  separators, the narrow no-break space, the medium mathematical space and the
  ideographic space.
\<close>

definition isspace_u :: "nat \<Rightarrow> bool" where
  "isspace_u n =
     ((9 \<le> n \<and> n \<le> 13) \<or> (28 \<le> n \<and> n \<le> 32) \<or> n = 133 \<or> n = 160
      \<or> n = 0x1680 \<or> (0x2000 \<le> n \<and> n \<le> 0x200A) \<or> n = 0x2028 \<or> n = 0x2029
      \<or> n = 0x202F \<or> n = 0x205F \<or> n = 0x3000)"

definition strip_u :: "nat list \<Rightarrow> nat list" where
  "strip_u s = dropWhile isspace_u (rev (dropWhile isspace_u (rev s)))"

definition normalize_filter_u :: "unicode_db \<Rightarrow> nat list \<Rightarrow> nat list" where
  "normalize_filter_u db f = strip_u (replace 32 [] (lower_u db f))"

definition matches_filter_u :: "unicode_db \<Rightarrow> nat list \<Rightarrow> nat list option \<Rightarrow> bool" where
  "matches_filter_u db file_name filter' =
     (case filter' of
        Some f \<Rightarrow>
          if f \<noteq> [] then match_chars (lower_u db file_name) (normalize_filter_u db f)
          else \<not> startswith file_name [46]
      | None \<Rightarrow> \<not> startswith file_name [46])"

text \<open>
  The part of the database for the Greek capitals U+0391 to U+03A9 and the Greek small
  letters U+03B1 to U+03C9: the capitals lower to the letter 32 places on, all of them are
  cased, none is case-ignorable (nor is the space).
\<close>

definition example_db :: unicode_db where
  "example_db =
     \<lparr> to_lower_full =
         (\<lambda>c. if 0x391 \<le> c \<and> c \<le> 0x3A9 \<and> c \<noteq> 0x3A2 then [c + 32] else [c]),
       is_cased =
         (\<lambda>c. (0x391 \<le> c \<and> c \<le> 0x3A9 \<and> c \<noteq> 0x3A2) \<or> (0x3B1 \<le> c \<and> c \<le> 0x3C9)),
       is_case_ignorable = (\<lambda>c. False) \<rparr>"

section \<open>Splitting, joining and parsing integers\<close>

text \<open>
  \<open>s.split(sep)\<close> for a one-character separator: the pieces between the separators, empty
  pieces kept, so the result is never empty (\<open>''.split('/')\<close> is \<open>['']\<close>).
\<close>

fun str_split :: "char \<Rightarrow> string \<Rightarrow> string list" where
  "str_split sep [] = [[]]"
| "str_split sep (c # cs) =
     (let r = str_split sep cs in if c = sep then [] # r else (c # hd r) # tl r)"

fun str_join :: "string \<Rightarrow> string list \<Rightarrow> string" where
  "str_join sep [] = []"
| "str_join sep [x] = x"
| "str_join sep (x # y # ys) = x @ sep @ str_join sep (y # ys)"

text \<open>
  \<open>int(s)\<close> for a string, in base 10: surrounding whitespace is dropped, one sign is
  allowed, then come decimal digits, where single underscores may stand between two
  digits. \<open>None\<close> stands for the \<open>ValueError\<close> of any other string.

  The whitespace of \<open>int\<close> is not that of \<open>str.strip\<close>: among the ASCII characters only tab
  to carriage return and the space are dropped, so the separators 0x1C to 0x1F, which
  \<open>str.strip\<close> removes, make \<open>int\<close> fail; beyond ASCII the whitespace characters (NEL and
  the no-break space) are read as spaces and dropped.

  A text of more than 4300 digits (the interpreter's default limit \<open>int_max_str_digits\<close>;
  underscores do not count) is refused with \<open>ValueError\<close> as well.
\<close>

definition is_int_space :: "char \<Rightarrow> bool" where
  "is_int_space c =
     (let n = (of_char c :: nat) in (9 \<le> n \<and> n \<le> 13) \<or> n = 32 \<or> n = 133 \<or> n = 160)"

definition int_strip :: "string \<Rightarrow> string" where
  "int_strip s = dropWhile is_int_space (rev (dropWhile is_int_space (rev s)))"

definition int_max_str_digits :: nat where
  "int_max_str_digits = 4300"

definition is_digit :: "char \<Rightarrow> bool" where
  "is_digit c = (let n = (of_char c :: nat) in 48 \<le> n \<and> n \<le> 57)"

definition digit_value :: "char \<Rightarrow> int" where
  "digit_value c = int (of_char c) - 48"

fun digits_ok :: "string \<Rightarrow> bool" where
  "digits_ok [] = False"
| "digits_ok [c] = is_digit c"
| "digits_ok (c # d # r) =
     (is_digit c \<and> (if d = CHR ''_'' then digits_ok r else digits_ok (d # r)))"

definition digits_value :: "string \<Rightarrow> int" where
  "digits_value body =
     foldl (\<lambda>acc c. if c = CHR ''_'' then acc else 10 * acc + digit_value c) 0 body"

definition py_int :: "string \<Rightarrow> int option" where
  "py_int s =
     (let t = int_strip s;
          neg = startswith t ''-'';
          body = (if startswith t ''-'' \<or> startswith t ''+'' then drop 1 t else t)
      in if digits_ok body \<and> length (filter is_digit body) \<le> int_max_str_digits
         then Some ((if neg then - 1 else 1) * digits_value body)
         else None)"

section \<open>Paths\<close>

text \<open>
  A \<open>pathlib.Path\<close> on a POSIX system, as the library keeps it: the root (\<open>''\<close>, \<open>/\<close> or
  \<open>//\<close>) and the list of components. The constructor splits the text at \<open>/\<close> and drops
  the empty components and the \<open>.\<close> components; exactly two leading slashes are kept as
  the root \<open>//\<close>, any other number of them is the root \<open>/\<close>.
\<close>

datatype path = PurePath (path_root: string) (path_parts: "string list")

definition splitroot :: "string \<Rightarrow> string \<times> string" where
  "splitroot p =
     (if take 1 p \<noteq> ''/'' then ([], p)
      else if take 1 (drop 1 p) \<noteq> ''/'' \<or> take 1 (drop 2 p) = ''/'' then (''/'', drop 1 p)
      else (''//'', drop 2 p))"

definition Path :: "string \<Rightarrow> path" where
  "Path s =
     (case splitroot s of
        (r, rel) \<Rightarrow> PurePath r (filter (\<lambda>x. x \<noteq> [] \<and> x \<noteq> ''.'') (str_split CHR ''/'' rel)))"

text \<open>\<open>str(path)\<close>, \<open>path.name\<close> and the child path that \<open>iterdir\<close> builds for a name.\<close>

definition path_str :: "path \<Rightarrow> string" where
  "path_str p =
     (if path_root p = [] \<and> path_parts p = [] then ''.''
      else path_root p @ str_join ''/'' (path_parts p))"

definition path_name :: "path \<Rightarrow> string" where
  "path_name p = (if path_parts p = [] then [] else last (path_parts p))"

definition make_child_relpath :: "path \<Rightarrow> string \<Rightarrow> path" where
  "make_child_relpath p n = PurePath (path_root p) (path_parts p @ [n])"

text \<open>The exceptions that can leave the query handler.\<close>

datatype py_error =
    TypeError
  | RuntimeError
  | FileNotFoundError
  | NotADirectoryError
  | PermissionError

text \<open>
  \<open>path.expanduser()\<close>: only a path without root whose first component starts with \<open>~\<close>
  changes; that component is replaced by the home directory of the user named after the
  \<open>~\<close> (the current user for the empty name). The lookup of home directories belongs to
  the system and is a parameter; where it finds nothing, \<open>RuntimeError\<close> is raised.
\<close>

definition expanduser :: "(string \<Rightarrow> string option) \<Rightarrow> path \<Rightarrow> py_error + path" where
  "expanduser homedir_of p =
     (if path_root p = [] \<and> path_parts p \<noteq> [] \<and> startswith (hd (path_parts p)) ''~'' then
        (case homedir_of (drop 1 (hd (path_parts p))) of
           None \<Rightarrow> Inl RuntimeError
         | Some homedir \<Rightarrow>
             Inr (PurePath (path_root (Path homedir))
                           (path_parts (Path homedir) @ tl (path_parts p))))
      else Inr p)"

text \<open>
  A path as the handler can hold one: a root of the three kinds, and components that are
  not empty, not \<open>.\<close> and free of \<open>/\<close>.
\<close>

definition valid_name :: "string \<Rightarrow> bool" where
  "valid_name n = (n \<noteq> [] \<and> n \<noteq> ''.'' \<and> CHR ''/'' \<notin> set n)"

definition wf_path :: "path \<Rightarrow> bool" where
  "wf_path p =
     ((path_root p = [] \<or> path_root p = ''/'' \<or> path_root p = ''//'')
      \<and> list_all valid_name (path_parts p))"

section \<open>The system around the handler\<close>

text \<open>
  What the handler asks of the system: the home directories, the names in a directory in
  the order the system lists them (or the error of the listing), whether a path is a
  directory, and the icon the desktop theme has for a path (\<open>None\<close> when there is no
  theme service, no icon, or the lookup fails).
\<close>

record env =
  gethomedir :: "string \<Rightarrow> string option"
  listdir :: "path \<Rightarrow> py_error + string list"
  is_dir :: "path \<Rightarrow> bool"
  theme_icon :: "path \<Rightarrow> string option"

type_synonym preferences = "string \<rightharpoonup> string"

definition DEFAULT_FILE_ICON :: string where
  "DEFAULT_FILE_ICON = ''images/default_file.png''"

definition DEFAULT_FOLDER_ICON :: string where
  "DEFAULT_FOLDER_ICON = ''images/default_folder.png''"

definition IMAGE_EXTENSIONS :: "string list" where
  "IMAGE_EXTENSIONS = [''.png'', ''.jpg'', ''.jpeg'']"

definition get_icon_for_file :: "env \<Rightarrow> path \<Rightarrow> string" where
  "get_icon_for_file e p =
     (if list_ex (endswith (lower (path_name p))) IMAGE_EXTENSIONS then path_str p
      else case theme_icon e p of
             Some filename \<Rightarrow> filename
           | None \<Rightarrow> if is_dir e p then DEFAULT_FOLDER_ICON else DEFAULT_FILE_ICON)"

section \<open>The query handler\<close>

datatype action = OpenAction string | SetUserQueryAction string

record ExtensionResultItem =
  icon :: string
  name :: string
  on_enter :: action

datatype response = RenderResultListAction "ExtensionResultItem list"

text \<open>Python's truth value of the argument or filter: a non-empty string.\<close>

definition truthy :: "string option \<Rightarrow> bool" where
  "truthy v = (case v of None \<Rightarrow> False | Some s \<Rightarrow> s \<noteq> [])"

text \<open>
  The first branch of \<open>on_event\<close>. Without a default path in the preferences,
  \<open>Path(None)\<close> raises \<open>TypeError\<close>.
\<close>

definition default_path_and_filter ::
    "preferences \<Rightarrow> string option \<Rightarrow> py_error + (path \<times> string option)" where
  "default_path_and_filter prefs argument =
     (case prefs ''fb_default_path'' of
        None \<Rightarrow> Inl TypeError
      | Some d \<Rightarrow> Inr (Path d, argument))"

definition current_path_and_filter ::
    "preferences \<Rightarrow> string option \<Rightarrow> py_error + (path \<times> string option)" where
  "current_path_and_filter prefs argument =
     (case argument of
        Some a \<Rightarrow>
          if a \<noteq> [] \<and> CHR ''/'' \<in> set a then
            (let bits = str_split CHR ''/'' a
             in Inr (Path (str_join ''/'' (butlast bits)), Some (last bits)))
          else default_path_and_filter prefs argument
      | None \<Rightarrow> default_path_and_filter prefs argument)"

definition parse_query ::
    "env \<Rightarrow> preferences \<Rightarrow> string option \<Rightarrow> py_error + (path \<times> string option)" where
  "parse_query e prefs argument =
     (case current_path_and_filter prefs argument of
        Inl err \<Rightarrow> Inl err
      | Inr (current_path, current_filter) \<Rightarrow>
          (case expanduser (gethomedir e) current_path of
             Inl err \<Rightarrow> Inl err
           | Inr expanded \<Rightarrow> Inr (expanded, current_filter)))"

definition open_folder_item :: "env \<Rightarrow> path \<Rightarrow> ExtensionResultItem" where
  "open_folder_item e current_path =
     \<lparr> icon = get_icon_for_file e current_path,
       name = ''[ Open folder in external file browser ]'',
       on_enter = OpenAction (path_str current_path) \<rparr>"

definition sort_key_of :: "env \<Rightarrow> path \<Rightarrow> bool \<times> string" where
  "sort_key_of e child_path = (\<not> is_dir e child_path, path_name child_path)"

definition sorted_children :: "env \<Rightarrow> path \<Rightarrow> py_error + path list" where
  "sorted_children e current_path =
     (case listdir e current_path of
        Inl err \<Rightarrow> Inl err
      | Inr names \<Rightarrow>
          Inr (sort_key (sort_key_of e) (map (make_child_relpath current_path) names)))"

text \<open>
  The limit after the conversion: absent, an integer, or the string that \<open>int\<close> refused
  and that stays in the variable.
\<close>

datatype limit = LimitInt int | LimitStr string

definition items_limit_of :: "preferences \<Rightarrow> limit option" where
  "items_limit_of prefs =
     (case prefs ''fb_items_limit'' of
        None \<Rightarrow> None
      | Some s \<Rightarrow> (case py_int s of Some n \<Rightarrow> Some (LimitInt n) | None \<Rightarrow> Some (LimitStr s)))"

text \<open>\<^verbatim>\<open>items_limit is not None and items_count == items_limit\<close>; an integer never equals a string.\<close>

definition limit_reached :: "limit option \<Rightarrow> int \<Rightarrow> bool" where
  "limit_reached items_limit items_count =
     (case items_limit of
        None \<Rightarrow> False
      | Some (LimitInt n) \<Rightarrow> items_count = n
      | Some (LimitStr s) \<Rightarrow> False)"

definition item_action :: "env \<Rightarrow> string \<Rightarrow> path \<Rightarrow> action" where
  "item_action e keyword child_path =
     (if is_dir e child_path
      then SetUserQueryAction (keyword @ '' '' @ path_str child_path @ ''/'')
      else OpenAction (path_str child_path))"

definition item_for_child :: "env \<Rightarrow> string \<Rightarrow> path \<Rightarrow> ExtensionResultItem" where
  "item_for_child e keyword child_path =
     \<lparr> icon = get_icon_for_file e child_path,
       name = path_name child_path,
       on_enter = item_action e keyword child_path \<rparr>"

text \<open>
  The loop over the sorted children, with the counter \<open>items_count\<close>; the \<open>break\<close> ends
  the list right after the item that reaches the limit.
\<close>

fun show_children ::
    "env \<Rightarrow> string \<Rightarrow> string option \<Rightarrow> bool \<Rightarrow> limit option \<Rightarrow> int \<Rightarrow> path list
      \<Rightarrow> ExtensionResultItem list" where
  "show_children e keyword current_filter show_hidden items_limit items_count [] = []"
| "show_children e keyword current_filter show_hidden items_limit items_count
      (child_path # rest) =
     (if show_hidden \<or> \<not> startswith (path_name child_path) ''.'' then
        if matches_filter (path_name child_path) current_filter then
          item_for_child e keyword child_path #
            (if limit_reached items_limit (items_count + 1) then []
             else show_children e keyword current_filter show_hidden items_limit
                    (items_count + 1) rest)
        else show_children e keyword current_filter show_hidden items_limit items_count rest
      else show_children e keyword current_filter show_hidden items_limit items_count rest)"

definition on_event ::
    "env \<Rightarrow> preferences \<Rightarrow> string \<Rightarrow> string option \<Rightarrow> py_error + response" where
  "on_event e prefs keyword argument =
     (case parse_query e prefs argument of
        Inl err \<Rightarrow> Inl err
      | Inr (current_path, current_filter) \<Rightarrow>
          (case sorted_children e current_path of
             Inl err \<Rightarrow> Inl err
           | Inr children \<Rightarrow>
               Inr (RenderResultListAction
                 ((if \<not> truthy current_filter then [open_folder_item e current_path] else [])
                  @ show_children e keyword current_filter
                      (prefs ''fb_show_hidden'' = Some ''Yes'') (items_limit_of prefs) 0
                      children))))"

subsection \<open>The two rules of the listing\<close>

text \<open>
  The visibility rule and the filter rule of the specification, for one child: shown if
  hidden entries are shown or the name does not start with \<open>.\<close>, and if the name matches
  the filter.
\<close>

definition passes :: "string option \<Rightarrow> bool \<Rightarrow> path \<Rightarrow> bool" where
  "passes current_filter show_hidden child_path =
     ((show_hidden \<or> \<not> startswith (path_name child_path) ''.'')
      \<and> matches_filter (path_name child_path) current_filter)"

section \<open>An example system\<close>

text \<open>
  A home directory \<open>/home/u\<close> for the current user; the directory \<open>/home/u\<close> holds the file
  \<open>notes.txt\<close>, the hidden file \<open>.profile\<close>, the directory \<open>docs\<close> and the file \<open>Zed\<close>,
  listed in that order; the working directory \<open>.\<close> holds one directory named \<open>~\<close>;
  nothing else exists.
\<close>

definition example_env :: env where
  "example_env =
     \<lparr> gethomedir = (\<lambda>user. if user = [] then Some ''/home/u'' else None),
       listdir = (\<lambda>p.
         if p = Path ''/home/u'' then Inr [''notes.txt'', ''.profile'', ''docs'', ''Zed'']
         else if p = Path ''/home/u/docs'' then Inr []
         else if p = Path ''.'' then Inr [''~'']
         else if p = Path ''~'' then Inr []
         else if p = Path ''/home/u/notes.txt'' \<or> p = Path ''/home/u/.profile''
                 \<or> p = Path ''/home/u/Zed'' then Inl NotADirectoryError
         else Inl FileNotFoundError),
       is_dir = (\<lambda>p. p = Path ''/home/u'' \<or> p = Path ''/home/u/docs'' \<or> p = Path ''.''
                      \<or> p = Path ''~'' \<or> p = Path ''/'' \<or> p = Path ''/home''),
       theme_icon = (\<lambda>p. None) \<rparr>"

definition example_prefs :: "string option \<Rightarrow> preferences" where
  "example_prefs items_limit =
     (\<lambda>key. if key = ''fb_default_path'' then Some ''~''
            else if key = ''fb_items_limit'' then items_limit
            else if key = ''fb_show_hidden'' then Some ''No''
            else None)"

section \<open>Properties of the filter\<close>

lemma str_index_Some_iff:
  "str_index s c = Some i \<longleftrightarrow> i < length s \<and> s ! i = c \<and> (\<forall>j<i. s ! j \<noteq> c)"
proof (induction s arbitrary: i)
  case Nil
  show ?case by simp
next
  case (Cons x xs)
  show ?case
  proof (cases "x = c")
    case True
    then show ?thesis by (cases i) auto
  next
    case False
    show ?thesis
    proof (cases i)
      case 0
      with False show ?thesis by auto
    next
      case (Suc k)
      have "(\<forall>j<Suc k. (x # xs) ! j \<noteq> c) \<longleftrightarrow> (\<forall>j<k. xs ! j \<noteq> c)"
        using False by (auto simp: less_Suc_eq_0_disj)
      with False Suc Cons.IH [of k] show ?thesis by auto
    qed
  qed
qed

lemma str_index_None_iff: "str_index s c = None \<longleftrightarrow> c \<notin> set s"
  by (induction s) auto

lemma find_from_str_index:
  "cur \<le> length s \<Longrightarrow>
     find_from s cur c = map_option (\<lambda>i. cur + i) (str_index (drop cur s) c)"
proof (induction "length s - cur" arbitrary: cur)
  case 0
  then have "cur = length s" by simp
  then show ?case by (simp add: find_from_def)
next
  case (Suc n)
  then have lt: "cur < length s" by simp
  have upt: "[cur..<length s] = cur # [Suc cur..<length s]"
    using lt by (simp add: upt_conv_Cons)
  have drp: "drop cur s = s ! cur # drop (Suc cur) s"
    using lt by (simp add: Cons_nth_drop_Suc)
  show ?case
  proof (cases "s ! cur = c")
    case True
    then show ?thesis by (simp add: find_from_def upt drp)
  next
    case False
    have "n = length s - Suc cur" using Suc.hyps(2) by simp
    moreover have "Suc cur \<le> length s" using lt by simp
    ultimately have IH: "find_from s (Suc cur) c
        = map_option (\<lambda>i. Suc cur + i) (str_index (drop (Suc cur) s) c)"
      by (rule Suc.hyps(1))
    have "find_from s cur c = find_from s (Suc cur) c"
      using False by (simp add: find_from_def upt)
    also note IH
    finally show ?thesis
      using False by (simp add: drp option.map_comp comp_def)
  qed
qed

lemma str_index_less: "str_index s c = Some i \<Longrightarrow> i < length s"
  by (simp add: str_index_Some_iff)

lemma match_chars_cursor_scan:
  "cur \<le> length s \<Longrightarrow> match_chars (drop cur s) cs = cursor_scan s cur cs"
proof (induction cs arbitrary: cur)
  case Nil
  show ?case by simp
next
  case (Cons c cs)
  show ?case
  proof (cases "str_index (drop cur s) c")
    case None
    with Cons.prems show ?thesis by (simp add: find_from_str_index)
  next
    case (Some i)
    then have "i < length (drop cur s)" by (rule str_index_less)
    then have le: "cur + i \<le> length s" by simp
    have "drop i (drop cur s) = drop (cur + i) s" by (simp add: add.commute)
    with Cons.IH [OF le] Some Cons.prems show ?thesis
      by (simp add: find_from_str_index)
  qed
qed

lemma lower_char_space: "lower_char CHR '' '' = CHR '' ''"
  by (simp add: lower_char_def)

lemma replace_empty: "replace old [] s = filter (\<lambda>c. c \<noteq> old) s"
  by (induction s) (simp_all add: replace_def)

lemma startswith_dot: "startswith s ''.'' \<longleftrightarrow> (\<exists>r. s = CHR ''.'' # r)"
  by (cases s) (auto simp: startswith_def)

text \<open>
  C1. For a non-empty filter, \<open>matches_filter\<close> is the cursor scan of the specification:
  the cursor starts at 0 in the lower-cased name, each character of the normalized filter is
  looked up at or after the cursor, and the cursor moves to the index found, not past it.
  So \<open>fisa\<close> matches \<open>fa\<close> and not \<open>af\<close>, and one occurrence may serve two filter
  characters (\<open>a\<close> matches \<open>aa\<close>).
\<close>

theorem matches_filter_cursor:
  "(\<forall>file_name f. f \<noteq> [] \<longrightarrow>
      matches_filter file_name (Some f)
        = cursor_scan (lower file_name) 0 (normalize_filter f))
   \<and> matches_filter ''fisa'' (Some ''fa'')
   \<and> \<not> matches_filter ''fisa'' (Some ''af'')
   \<and> matches_filter ''a'' (Some ''aa'')"
proof (intro conjI allI impI)
  fix file_name f :: string
  assume "f \<noteq> []"
  then show "matches_filter file_name (Some f)
        = cursor_scan (lower file_name) 0 (normalize_filter f)"
    using match_chars_cursor_scan [of 0 "lower file_name" "normalize_filter f"]
    by (simp add: matches_filter_def)
next
  show "matches_filter ''fisa'' (Some ''fa'')" by code_simp
  show "\<not> matches_filter ''fisa'' (Some ''af'')" by code_simp
  show "matches_filter ''a'' (Some ''aa'')" by code_simp
qed

theorem matches_filter_cursor_witness:
  "''Fa'' \<noteq> [] \<and> matches_filter ''fisa'' (Some ''Fa'')
     = cursor_scan (lower ''fisa'') 0 (normalize_filter ''Fa'')
   \<and> cursor_scan (lower ''fisa'') 0 (normalize_filter ''Fa'')"
proof -
  have "cursor_scan (lower ''fisa'') 0 (normalize_filter ''Fa'')" by code_simp
  then show ?thesis
    using matches_filter_cursor [THEN conjunct1, rule_format, of "''Fa''" "''fisa''"] by simp
qed

text \<open>
  C2. With the empty filter (and likewise with no filter at all) \<open>matches_filter\<close> holds
  exactly for the names that do not start with the hidden marker \<open>.\<close>: \<open>.git\<close> is
  rejected, \<open>notes\<close> is accepted.
\<close>


theorem matches_filter_empty:
  "matches_filter file_name (Some []) = (\<not> (\<exists>r. file_name = CHR ''.'' # r))
   \<and> matches_filter file_name None = (\<not> (\<exists>r. file_name = CHR ''.'' # r))
   \<and> \<not> matches_filter ''.git'' (Some [])
   \<and> matches_filter ''notes'' (Some [])"
  by (simp add: matches_filter_def startswith_dot)

theorem matches_filter_empty_witness:
  "matches_filter ''.git'' (Some []) = (\<not> (\<exists>r. ''.git'' = CHR ''.'' # r))
   \<and> \<not> matches_filter ''.git'' (Some [])"
  using matches_filter_empty [of "''.git''"] by simp

lemma normalize_filter_spaces:
  "set f \<subseteq> {CHR '' ''} \<Longrightarrow> normalize_filter f = []"
proof -
  assume a: "set f \<subseteq> {CHR '' ''}"
  then have "lower f = f"
    unfolding lower_def by (induction f) (simp_all add: lower_char_space)
  moreover from a have "filter (\<lambda>c. c \<noteq> CHR '' '') f = []"
    by (induction f) simp_all
  ultimately show ?thesis
    by (simp add: normalize_filter_def replace_empty strip_def lstrip_def rstrip_def)
qed

text \<open>
  C10. A filter that is not empty but holds only spaces takes the filtering branch, is
  normalized to the empty string and lets the loop succeed at once: every name matches,
  hidden ones too, whereas the empty filter rejects hidden names.
\<close>

theorem matches_filter_only_spaces:
  "(\<forall>file_name f. f \<noteq> [] \<and> set f \<subseteq> {CHR '' ''} \<longrightarrow> matches_filter file_name (Some f))
   \<and> matches_filter ''.git'' (Some '' '')
   \<and> \<not> matches_filter ''.git'' (Some [])"
proof (intro conjI allI impI)
  fix file_name f :: string
  assume "f \<noteq> [] \<and> set f \<subseteq> {CHR '' ''}"
  then show "matches_filter file_name (Some f)"
    by (simp add: matches_filter_def normalize_filter_spaces)
next
  show "matches_filter ''.git'' (Some '' '')" by code_simp
  show "\<not> matches_filter ''.git'' (Some [])" by code_simp
qed

theorem matches_filter_only_spaces_witness:
  "''   '' \<noteq> [] \<and> set ''   '' \<subseteq> {CHR '' ''} \<and> matches_filter ''.bashrc'' (Some ''   '')"
  using matches_filter_only_spaces [THEN conjunct1, rule_format, of "''   ''" "''.bashrc''"]
  by simp

section \<open>Properties of the filter beyond Latin-1\<close>

lemma do_lower_no_sigma:
  "0x3A3 \<notin> set s \<Longrightarrow> do_lower db before s = concat (map (lower_full db) s)"
  by (induction s arbitrary: before) simp_all

lemma lower_u_no_sigma:
  "0x3A3 \<notin> set s \<Longrightarrow> lower_u db s = concat (map (lower_full db) s)"
  unfolding lower_u_def by (rule do_lower_no_sigma)

lemma lower_full_latin1: "lower_full db (of_char c) = [of_char (lower_char c)]"
  by (simp add: lower_full_def)

lemma lower_full_beyond: "256 \<le> c \<Longrightarrow> lower_full db c = to_lower_full db c"
  by (simp add: lower_full_def)

lemma lower_full_space: "lower_full db 32 = [32]"
proof -
  have "lower_full db (of_char CHR '' '') = [of_char (lower_char CHR '' '')]"
    by (rule lower_full_latin1)
  then show ?thesis by (simp add: lower_char_space)
qed

lemma normalize_filter_u_cong:
  assumes "filter (\<lambda>c. c \<noteq> 32) (lower_u db f) = filter (\<lambda>c. c \<noteq> 32) (lower_u db g)"
  shows "normalize_filter_u db f = normalize_filter_u db g"
  unfolding normalize_filter_u_def replace_empty using assms by (rule arg_cong)

lemma normalize_filter_u_insert_space:
  assumes "0x3A3 \<notin> set (xs @ ys)"
  shows "normalize_filter_u db (xs @ 32 # ys) = normalize_filter_u db (xs @ ys)"
proof (rule normalize_filter_u_cong)
  from assms have "0x3A3 \<notin> set (xs @ 32 # ys)" by simp
  then have "lower_u db (xs @ 32 # ys) = concat (map (lower_full db) (xs @ 32 # ys))"
    by (rule lower_u_no_sigma)
  then have a: "lower_u db (xs @ 32 # ys)
      = concat (map (lower_full db) xs) @ 32 # concat (map (lower_full db) ys)"
    by (simp add: lower_full_space)
  from assms have "lower_u db (xs @ ys) = concat (map (lower_full db) (xs @ ys))"
    by (rule lower_u_no_sigma)
  then have b: "lower_u db (xs @ ys)
      = concat (map (lower_full db) xs) @ concat (map (lower_full db) ys)"
    by simp
  show "filter (\<lambda>c. c \<noteq> 32) (lower_u db (xs @ 32 # ys))
      = filter (\<lambda>c. c \<noteq> 32) (lower_u db (xs @ ys))"
    unfolding a b by simp
qed

lemma matches_filter_u_nonempty:
  "f \<noteq> [] \<Longrightarrow>
     matches_filter_u db n (Some f) = match_chars (lower_u db n) (normalize_filter_u db f)"
  by (simp add: matches_filter_u_def)

subsection \<open>On Latin-1 text the two filters agree\<close>

lemma codes_Nil: "codes [] = []"
  by (simp add: codes_def)

lemma codes_Cons: "codes (c # s) = of_char c # codes s"
  by (simp add: codes_def)

lemma do_lower_codes: "do_lower db before (codes s) = codes (lower s)"
proof (induction s arbitrary: before)
  case Nil
  show ?case by (simp add: codes_Nil lower_def)
next
  case (Cons c s)
  have "(of_char c :: nat) < 256" by (rule nat_of_char_less_256)
  then have "(of_char c :: nat) \<noteq> 0x3A3" by arith
  with Cons [of "before @ [of_char c]"] show ?case
    by (simp add: codes_Cons lower_def lower_full_latin1)
qed

lemma lower_u_codes: "lower_u db (codes s) = codes (lower s)"
  unfolding lower_u_def by (rule do_lower_codes)

lemma isspace_u_of_char: "isspace_u (of_char c) = isspace c"
proof -
  have "(of_char c :: nat) < 256" by (rule nat_of_char_less_256)
  then show ?thesis unfolding isspace_u_def isspace_def Let_def by arith
qed

lemma dropWhile_isspace_codes:
  "dropWhile isspace_u (codes s) = codes (dropWhile isspace s)"
  by (induction s) (simp_all add: codes_Nil codes_Cons isspace_u_of_char)

lemma rev_codes: "rev (codes s) = codes (rev s)"
  by (simp add: codes_def rev_map)

lemma strip_u_codes: "strip_u (codes s) = codes (strip s)"
  by (simp add: strip_u_def strip_def lstrip_def rstrip_def rev_codes dropWhile_isspace_codes)

lemma remove_space_codes:
  "filter (\<lambda>c. c \<noteq> 32) (codes s) = codes (filter (\<lambda>c. c \<noteq> CHR '' '') s)"
proof (induction s)
  case Nil
  show ?case by (simp add: codes_def)
next
  case (Cons c s)
  have "(of_char c = (32 :: nat)) = (c = CHR '' '')"
    using of_char_eq_iff [of c "CHR '' ''", where ?'a = nat] by simp
  with Cons show ?case by (simp add: codes_def)
qed

lemma normalize_filter_u_codes: "normalize_filter_u db (codes f) = codes (normalize_filter f)"
  by (simp add: normalize_filter_u_def normalize_filter_def replace_empty lower_u_codes
      remove_space_codes strip_u_codes)

lemma str_index_codes: "str_index (codes s) (of_char c) = str_index s c"
  by (induction s) (simp_all add: codes_Nil codes_Cons)

lemma drop_codes: "drop i (codes s) = codes (drop i s)"
  by (simp add: codes_def drop_map)

lemma match_chars_codes: "match_chars (codes r) (codes cs) = match_chars r cs"
proof (induction cs arbitrary: r)
  case Nil
  show ?case by (simp add: codes_Nil)
next
  case (Cons c cs)
  have "match_chars (codes r) (codes (c # cs))
      = (case str_index (codes r) (of_char c) of
           None \<Rightarrow> False
         | Some index \<Rightarrow> match_chars (drop index (codes r)) (codes cs))"
    by (simp add: codes_Cons)
  also have "\<dots> = (case str_index r c of
           None \<Rightarrow> False
         | Some index \<Rightarrow> match_chars (drop index r) cs)"
    by (simp add: str_index_codes drop_codes Cons.IH split: option.splits)
  finally show ?case by simp
qed

lemma startswith_dot_codes: "startswith (codes n) [46] = startswith n ''.''"
proof (cases n)
  case Nil
  then show ?thesis by (simp add: startswith_def codes_def)
next
  case (Cons c r)
  have "(of_char c = (46 :: nat)) = (c = CHR ''.'')"
    using of_char_eq_iff [of c "CHR ''.''", where ?'a = nat] by simp
  with Cons show ?thesis by (simp add: startswith_def codes_def)
qed

lemma matches_filter_u_codes:
  "matches_filter_u db (codes n) (map_option codes f) = matches_filter n f"
proof (cases f)
  case None
  then show ?thesis by (simp add: matches_filter_u_def matches_filter_def startswith_dot_codes)
next
  case (Some g)
  have "(codes g = []) = (g = [])" by (simp add: codes_def)
  with Some show ?thesis
    by (simp add: matches_filter_u_def matches_filter_def startswith_dot_codes
        lower_u_codes normalize_filter_u_codes match_chars_codes)
qed

subsection \<open>Case and spaces in the filter\<close>

text \<open>
  C3, as the code has it. For a non-empty filter the result depends on the filter only
  through its lower-cased text with the spaces removed, and on the name only through its
  lower-cased text: two non-empty filters whose lower-cased texts agree apart from spaces
  give the same result. Inserting a space into a filter that holds no Greek capital sigma
  changes nothing, since such a text is lower-cased character by character. And
  \<open>MyFile.txt\<close> matches \<open>my file\<close>.
\<close>

theorem matches_filter_u_case_space:
  "(\<forall>db n m f g. f \<noteq> [] \<and> g \<noteq> [] \<and> lower_u db n = lower_u db m
        \<and> filter (\<lambda>c. c \<noteq> 32) (lower_u db f) = filter (\<lambda>c. c \<noteq> 32) (lower_u db g)
      \<longrightarrow> matches_filter_u db n (Some f) = matches_filter_u db m (Some g))
   \<and> (\<forall>db n xs ys. xs @ ys \<noteq> [] \<and> 0x3A3 \<notin> set (xs @ ys)
      \<longrightarrow> matches_filter_u db n (Some (xs @ 32 # ys)) = matches_filter_u db n (Some (xs @ ys)))
   \<and> (\<forall>db. matches_filter_u db (codes ''MyFile.txt'') (Some (codes ''my file'')))"
proof (intro conjI allI impI)
  fix db :: unicode_db and n m f g :: "nat list"
  assume a: "f \<noteq> [] \<and> g \<noteq> [] \<and> lower_u db n = lower_u db m
        \<and> filter (\<lambda>c. c \<noteq> 32) (lower_u db f) = filter (\<lambda>c. c \<noteq> 32) (lower_u db g)"
  then have f: "f \<noteq> []" by (rule conjunct1)
  from a have g: "g \<noteq> []" by (rule conjunct2 [THEN conjunct1])
  from a have nm: "lower_u db n = lower_u db m" by (rule conjunct2 [THEN conjunct2, THEN conjunct1])
  from a have "filter (\<lambda>c. c \<noteq> 32) (lower_u db f) = filter (\<lambda>c. c \<noteq> 32) (lower_u db g)"
    by (rule conjunct2 [THEN conjunct2, THEN conjunct2])
  then have nf: "normalize_filter_u db f = normalize_filter_u db g"
    by (rule normalize_filter_u_cong)
  show "matches_filter_u db n (Some f) = matches_filter_u db m (Some g)"
    unfolding matches_filter_u_nonempty [OF f] matches_filter_u_nonempty [OF g]
    by (simp only: nm nf)
next
  fix db :: unicode_db and n xs ys :: "nat list"
  assume a: "xs @ ys \<noteq> [] \<and> 0x3A3 \<notin> set (xs @ ys)"
  then have ne: "xs @ ys \<noteq> []" by (rule conjunct1)
  from a have ns: "0x3A3 \<notin> set (xs @ ys)" by (rule conjunct2)
  have "xs @ 32 # ys \<noteq> []" by simp
  then have "matches_filter_u db n (Some (xs @ 32 # ys))
      = match_chars (lower_u db n) (normalize_filter_u db (xs @ 32 # ys))"
    by (rule matches_filter_u_nonempty)
  also have "\<dots> = match_chars (lower_u db n) (normalize_filter_u db (xs @ ys))"
    by (simp only: normalize_filter_u_insert_space [OF ns])
  also have "\<dots> = matches_filter_u db n (Some (xs @ ys))"
    using matches_filter_u_nonempty [OF ne] by (rule sym)
  finally show "matches_filter_u db n (Some (xs @ 32 # ys))
      = matches_filter_u db n (Some (xs @ ys))" .
next
  fix db :: unicode_db
  have "matches_filter ''MyFile.txt'' (Some ''my file'')" by code_simp
  then show "matches_filter_u db (codes ''MyFile.txt'') (Some (codes ''my file''))"
    using matches_filter_u_codes [of db "''MyFile.txt''" "Some ''my file''"] by simp
qed

theorem matches_filter_u_case_space_witness:
  "[0x3B1, 0x3B2] @ [0x3B3 :: nat] \<noteq> []
   \<and> 0x3A3 \<notin> set ([0x3B1, 0x3B2] @ [0x3B3 :: nat])
   \<and> matches_filter_u example_db [0x3B1, 0x3B2, 0x3B3] (Some ([0x3B1, 0x3B2] @ 32 # [0x3B3]))
       = matches_filter_u example_db [0x3B1, 0x3B2, 0x3B3] (Some ([0x3B1, 0x3B2] @ [0x3B3]))
   \<and> matches_filter_u example_db [0x3B1, 0x3B2, 0x3B3] (Some [0x391, 0x3B2, 32, 0x393])"
proof -
  have ne: "[0x3B1, 0x3B2] @ [0x3B3 :: nat] \<noteq> []" by simp
  have ns: "0x3A3 \<notin> set ([0x3B1, 0x3B2] @ [0x3B3 :: nat])" by simp
  have h: "[0x3B1, 0x3B2] @ [0x3B3 :: nat] \<noteq> []
      \<and> 0x3A3 \<notin> set ([0x3B1, 0x3B2] @ [0x3B3 :: nat])"
    using ne ns by (rule conjI)
  have a: "matches_filter_u example_db [0x3B1, 0x3B2, 0x3B3]
        (Some ([0x3B1, 0x3B2] @ 32 # [0x3B3]))
      = matches_filter_u example_db [0x3B1, 0x3B2, 0x3B3] (Some ([0x3B1, 0x3B2] @ [0x3B3]))"
    by (rule matches_filter_u_case_space [THEN conjunct2, THEN conjunct1, rule_format, OF h])
  have f: "[0x391, 0x3B2, 32, 0x393 :: nat] \<noteq> []" and g: "[0x3B1, 0x3B2] @ [0x3B3 :: nat] \<noteq> []"
    by simp_all
  have l: "lower_u example_db [0x3B1, 0x3B2, 0x3B3] = lower_u example_db [0x3B1, 0x3B2, 0x3B3]"
    by (rule refl)
  have e: "filter (\<lambda>c. c \<noteq> 32) (lower_u example_db [0x391, 0x3B2, 32, 0x393])
      = filter (\<lambda>c. c \<noteq> 32) (lower_u example_db ([0x3B1, 0x3B2] @ [0x3B3]))"
    by (simp add: lower_u_def lower_full_beyond lower_full_space example_db_def)
  have h2: "[0x391, 0x3B2, 32, 0x393 :: nat] \<noteq> [] \<and> [0x3B1, 0x3B2] @ [0x3B3 :: nat] \<noteq> []
      \<and> lower_u example_db [0x3B1, 0x3B2, 0x3B3] = lower_u example_db [0x3B1, 0x3B2, 0x3B3]
      \<and> filter (\<lambda>c. c \<noteq> 32) (lower_u example_db [0x391, 0x3B2, 32, 0x393])
          = filter (\<lambda>c. c \<noteq> 32) (lower_u example_db ([0x3B1, 0x3B2] @ [0x3B3]))"
    using f g l e by (intro conjI)
  have b: "matches_filter_u example_db [0x3B1, 0x3B2, 0x3B3] (Some [0x391, 0x3B2, 32, 0x393])
      = matches_filter_u example_db [0x3B1, 0x3B2, 0x3B3] (Some ([0x3B1, 0x3B2] @ [0x3B3]))"
    by (rule matches_filter_u_case_space [THEN conjunct1, rule_format, OF h2])
  have c: "matches_filter_u example_db [0x3B1, 0x3B2, 0x3B3] (Some ([0x3B1, 0x3B2] @ [0x3B3]))"
    by (simp add: matches_filter_u_def normalize_filter_u_def strip_u_def isspace_u_def
        replace_def lower_u_def lower_full_beyond example_db_def)
  from b c have d: "matches_filter_u example_db [0x3B1, 0x3B2, 0x3B3]
      (Some [0x391, 0x3B2, 32, 0x393])" by (rule iffD2)
  from ne ns a d show ?thesis by (intro conjI)
qed

text \<open>
  Inserting a space changes the result for a filter with a capital sigma. In the filter
  Alpha, Sigma, space, Alpha (U+0391 U+03A3 U+0020 U+0391) the sigma ends a word and lowers
  to the final sigma U+03C2, so the filter is normalized to U+03B1 U+03C2 U+03B1; in the
  filter Alpha, Sigma, Alpha the sigma lowers to the small sigma U+03C3. The name alpha,
  sigma, alpha (U+03B1 U+03C3 U+03B1) matches the filter without the space and not the one
  with it.
\<close>

theorem final_sigma_counterexample:
  "lower_u example_db [0x391, 0x3A3, 0x391] = [0x3B1, 0x3C3, 0x3B1]
   \<and> lower_u example_db [0x391, 0x3A3, 32, 0x391] = [0x3B1, 0x3C2, 32, 0x3B1]
   \<and> normalize_filter_u example_db [0x391, 0x3A3, 32, 0x391] = [0x3B1, 0x3C2, 0x3B1]
   \<and> matches_filter_u example_db [0x3B1, 0x3C3, 0x3B1] (Some [0x391, 0x3A3, 0x391])
   \<and> \<not> matches_filter_u example_db [0x3B1, 0x3C3, 0x3B1] (Some [0x391, 0x3A3, 32, 0x391])"
  by (simp add: matches_filter_u_def normalize_filter_u_def strip_u_def isspace_u_def
      replace_def lower_u_def final_sigma_def lower_full_beyond lower_full_space
      example_db_def)

text \<open>
  A change of case that changes the lower-cased text changes the result as well: the
  upper-case form of the sharp s (0xDF) is \<open>SS\<close>, which lowers to \<open>ss\<close>.
\<close>

lemma sharp_s_upper_case:
  "matches_filter [CHR 0xDF] (Some [CHR 0xDF]) \<and> \<not> matches_filter [CHR 0xDF] (Some ''SS'')"
  by code_simp

section \<open>Properties of splitting and joining\<close>

lemma str_split_not_Nil: "str_split sep s \<noteq> []"
  by (cases s) (simp_all add: Let_def)

lemma str_split_no_sep: "sep \<notin> set s \<Longrightarrow> str_split sep s = [s]"
  by (induction s) (auto simp: Let_def)

lemma str_split_append:
  "sep \<notin> set x \<Longrightarrow> str_split sep (x @ sep # r) = x # str_split sep r"
  by (induction x) (auto simp: Let_def)

lemma str_join_Cons: "ys \<noteq> [] \<Longrightarrow> str_join sep (x # ys) = x @ sep @ str_join sep ys"
  by (cases ys) simp_all

lemma str_join_snoc: "xs \<noteq> [] \<Longrightarrow> str_join sep (xs @ [y]) = str_join sep xs @ sep @ y"
proof (induction xs)
  case Nil
  then show ?case by simp
next
  case (Cons x xs)
  show ?case
  proof (cases "xs = []")
    case True
    then show ?thesis by simp
  next
    case False
    then have "str_join sep ((x # xs) @ [y]) = x @ sep @ str_join sep (xs @ [y])"
      by (simp add: str_join_Cons)
    also have "\<dots> = x @ sep @ str_join sep xs @ sep @ y"
      using Cons.IH [OF False] by simp
    also have "\<dots> = str_join sep (x # xs) @ sep @ y"
      using False by (simp add: str_join_Cons)
    finally show ?thesis .
  qed
qed

text \<open>The argument is cut at its last separator.\<close>

lemma str_split_last_sep:
  "sep \<notin> set y \<Longrightarrow> str_split sep (x @ sep # y) = str_split sep x @ [y]"
proof (induction x)
  case Nil
  then show ?case by (simp add: str_split_no_sep)
next
  case (Cons c x)
  then have IH: "str_split sep (x @ sep # y) = str_split sep x @ [y]" by simp
  have ne: "str_split sep x \<noteq> []" by (rule str_split_not_Nil)
  show ?case
    using ne by (simp add: Let_def IH)
qed

lemma str_join_str_split: "str_join [sep] (str_split sep s) = s"
proof (induction s)
  case Nil
  show ?case by simp
next
  case (Cons c s)
  have ne: "str_split sep s \<noteq> []" by (rule str_split_not_Nil)
  show ?case
  proof (cases "c = sep")
    case True
    with ne Cons show ?thesis by (simp add: Let_def str_join_Cons)
  next
    case False
    from ne obtain h t where ht: "str_split sep s = h # t" by (cases "str_split sep s") auto
    have "str_join [sep] ((c # h) # t) = c # str_join [sep] (h # t)"
      by (cases t) simp_all
    with False ht Cons show ?thesis by (simp add: Let_def)
  qed
qed

lemma last_sep_decomposition:
  "sep \<in> set s \<Longrightarrow> \<exists>x y. s = x @ sep # y \<and> sep \<notin> set y"
  using split_list_last [of sep s] by blast

lemma split_at_last_sep:
  assumes "sep \<notin> set y"
  shows "str_join [sep] (butlast (str_split sep (x @ sep # y))) = x"
    and "last (str_split sep (x @ sep # y)) = y"
  using assms by (simp_all add: str_split_last_sep str_join_str_split)

section \<open>Properties of the query parser\<close>

lemma matches_filter_None: "matches_filter n None = matches_filter n (Some [])"
  by (simp add: matches_filter_def)

lemma show_children_None:
  "show_children e kw None sh lim k cs = show_children e kw (Some []) sh lim k cs"
  by (induction cs arbitrary: k) (auto simp: matches_filter_None)

lemma current_path_and_filter_sep:
  assumes "CHR ''/'' \<in> set a"
  shows "current_path_and_filter prefs (Some a)
    = Inr (Path (str_join ''/'' (butlast (str_split CHR ''/'' a))),
           Some (last (str_split CHR ''/'' a)))"
proof -
  from assms have "a \<noteq> []" by auto
  with assms show ?thesis by (simp add: current_path_and_filter_def Let_def)
qed

lemma current_path_and_filter_default:
  assumes "argument = None \<or> (\<exists>a. argument = Some a \<and> CHR ''/'' \<notin> set a)"
  shows "current_path_and_filter prefs argument = default_path_and_filter prefs argument"
  using assms by (auto simp: current_path_and_filter_def split: option.splits)

lemma on_event_None:
  "on_event e prefs kw None = on_event e prefs kw (Some [])"
proof (cases "prefs ''fb_default_path''")
  case None
  then show ?thesis
    by (simp add: on_event_def parse_query_def current_path_and_filter_def
        default_path_and_filter_def)
next
  case (Some d)
  show ?thesis
  proof (cases "expanduser (gethomedir e) (Path d)")
    case (Inl err)
    with Some show ?thesis
      by (simp add: on_event_def parse_query_def current_path_and_filter_def
          default_path_and_filter_def)
  next
    case (Inr p)
    with Some show ?thesis
      by (simp add: on_event_def parse_query_def current_path_and_filter_def
          default_path_and_filter_def truthy_def show_children_None split: sum.splits)
  qed
qed

lemma cut_at_last_sep:
  assumes "sep \<in> set a"
  shows "a = str_join [sep] (butlast (str_split sep a)) @ [sep] @ last (str_split sep a)
    \<and> sep \<notin> set (last (str_split sep a))"
proof -
  from assms obtain x y where xy: "a = x @ sep # y" "sep \<notin> set y"
    using last_sep_decomposition by metis
  then show ?thesis by (simp add: split_at_last_sep)
qed

text \<open>
  C4. An argument that contains \<open>/\<close> is cut at its last \<open>/\<close>: the segments but the last,
  joined again by \<open>/\<close>, are the text before it and make the base path; the last segment,
  which holds no \<open>/\<close> and may be empty, is the filter. Any other argument, or none, gives
  the configured default path and the argument itself as the filter, and an absent
  argument is handled exactly as the empty one. In both branches the home directory is
  expanded once, on the path the branch produced.
\<close>

theorem parse_query_branches:
  "(\<forall>e prefs a. CHR ''/'' \<in> set a \<longrightarrow>
      parse_query e prefs (Some a)
        = (case expanduser (gethomedir e)
                  (Path (str_join ''/'' (butlast (str_split CHR ''/'' a)))) of
             Inl err \<Rightarrow> Inl err
           | Inr p \<Rightarrow> Inr (p, Some (last (str_split CHR ''/'' a)))))
   \<and> (\<forall>a. CHR ''/'' \<in> set a \<longrightarrow>
      a = str_join ''/'' (butlast (str_split CHR ''/'' a)) @ ''/'' @ last (str_split CHR ''/'' a)
      \<and> CHR ''/'' \<notin> set (last (str_split CHR ''/'' a)))
   \<and> (\<forall>e prefs argument d.
      (argument = None \<or> (\<exists>a. argument = Some a \<and> CHR ''/'' \<notin> set a))
      \<and> prefs ''fb_default_path'' = Some d \<longrightarrow>
      parse_query e prefs argument
        = (case expanduser (gethomedir e) (Path d) of
             Inl err \<Rightarrow> Inl err
           | Inr p \<Rightarrow> Inr (p, argument)))
   \<and> (\<forall>e prefs keyword. on_event e prefs keyword None = on_event e prefs keyword (Some []))
   \<and> parse_query example_env (example_prefs None) (Some ''documents/notes'')
       = Inr (Path ''documents'', Some ''notes'')
   \<and> parse_query example_env (example_prefs None) (Some ''documents/'')
       = Inr (Path ''documents'', Some [])
   \<and> parse_query example_env (example_prefs None) (Some ''notes'')
       = Inr (Path ''/home/u'', Some ''notes'')"
proof (intro conjI allI impI)
  fix e :: env and prefs :: preferences and a :: string
  assume "CHR ''/'' \<in> set a"
  then show "parse_query e prefs (Some a)
        = (case expanduser (gethomedir e)
                  (Path (str_join ''/'' (butlast (str_split CHR ''/'' a)))) of
             Inl err \<Rightarrow> Inl err
           | Inr p \<Rightarrow> Inr (p, Some (last (str_split CHR ''/'' a))))"
    by (simp add: parse_query_def current_path_and_filter_sep)
next
  fix a :: string
  assume a: "CHR ''/'' \<in> set a"
  from cut_at_last_sep [OF a]
  show "a = str_join ''/'' (butlast (str_split CHR ''/'' a)) @ ''/'' @ last (str_split CHR ''/'' a)"
    by blast
  from cut_at_last_sep [OF a]
  show "CHR ''/'' \<notin> set (last (str_split CHR ''/'' a))" by blast
next
  fix e :: env and prefs :: preferences and argument :: "string option" and d :: string
  assume h: "(argument = None \<or> (\<exists>a. argument = Some a \<and> CHR ''/'' \<notin> set a))
      \<and> prefs ''fb_default_path'' = Some d"
  then have "current_path_and_filter prefs argument = Inr (Path d, argument)"
    by (simp add: current_path_and_filter_default default_path_and_filter_def)
  then show "parse_query e prefs argument
        = (case expanduser (gethomedir e) (Path d) of
             Inl err \<Rightarrow> Inl err
           | Inr p \<Rightarrow> Inr (p, argument))"
    by (simp add: parse_query_def)
next
  fix e :: env and prefs :: preferences and keyword :: string
  show "on_event e prefs keyword None = on_event e prefs keyword (Some [])"
    by (rule on_event_None)
next
  show "parse_query example_env (example_prefs None) (Some ''documents/notes'')
       = Inr (Path ''documents'', Some ''notes'')" by code_simp
  show "parse_query example_env (example_prefs None) (Some ''documents/'')
       = Inr (Path ''documents'', Some [])" by code_simp
  show "parse_query example_env (example_prefs None) (Some ''notes'')
       = Inr (Path ''/home/u'', Some ''notes'')" by code_simp
qed

theorem parse_query_branches_witness:
  "CHR ''/'' \<in> set ''~/docs/no'' 
   \<and> parse_query example_env (example_prefs None) (Some ''~/docs/no'')
       = Inr (Path ''/home/u/docs'', Some ''no'')
   \<and> (None = None \<or> (\<exists>a. (None :: string option) = Some a \<and> CHR ''/'' \<notin> set a))
   \<and> example_prefs None ''fb_default_path'' = Some ''~''
   \<and> parse_query example_env (example_prefs None) None = Inr (Path ''/home/u'', None)"
proof -
  have m: "CHR ''/'' \<in> set ''~/docs/no''" by simp
  have d: "example_prefs None ''fb_default_path'' = Some ''~''" by (simp add: example_prefs_def)
  have e1: "(case expanduser (gethomedir example_env)
                  (Path (str_join ''/'' (butlast (str_split CHR ''/'' ''~/docs/no'')))) of
             Inl err \<Rightarrow> Inl err
           | Inr p \<Rightarrow> Inr (p, Some (last (str_split CHR ''/'' ''~/docs/no''))))
        = (Inr (Path ''/home/u/docs'', Some ''no'') :: py_error + path \<times> string option)"
    by code_simp
  have e2: "(case expanduser (gethomedir example_env) (Path ''~'') of
             Inl err \<Rightarrow> Inl err
           | Inr p \<Rightarrow> Inr (p, None))
        = (Inr (Path ''/home/u'', None) :: py_error + path \<times> string option)"
    by code_simp
  have "parse_query example_env (example_prefs None) (Some ''~/docs/no'')
       = Inr (Path ''/home/u/docs'', Some ''no'')"
    using parse_query_branches [THEN conjunct1, rule_format, OF m, of example_env "example_prefs None"]
    by (simp only: e1)
  moreover have "parse_query example_env (example_prefs None) None = Inr (Path ''/home/u'', None)"
    using parse_query_branches [THEN conjunct2, THEN conjunct2, THEN conjunct1, rule_format,
        of None "example_prefs None" "''~''" example_env] d
    by (simp only: e2) simp
  ultimately show ?thesis using m d by simp
qed

section \<open>Properties of the listing\<close>

lemma show_children_Cons:
  "show_children e kw f sh lim k (c # cs)
    = (if passes f sh c then
         item_for_child e kw c #
           (if limit_reached lim (k + 1) then [] else show_children e kw f sh lim (k + 1) cs)
       else show_children e kw f sh lim k cs)"
  by (auto simp: passes_def)

lemma show_children_unlimited:
  assumes "\<And>m. k < m \<Longrightarrow> \<not> limit_reached lim m"
  shows "show_children e kw f sh lim k cs
    = map (item_for_child e kw) (filter (passes f sh) cs)"
  using assms
proof (induction cs arbitrary: k)
  case Nil
  show ?case by simp
next
  case (Cons c cs)
  have nr: "\<not> limit_reached lim (k + 1)" by (rule Cons.prems) simp
  have up: "show_children e kw f sh lim (k + 1) cs
      = map (item_for_child e kw) (filter (passes f sh) cs)"
    by (rule Cons.IH) (rule Cons.prems, simp)
  have same: "show_children e kw f sh lim k cs
      = map (item_for_child e kw) (filter (passes f sh) cs)"
    by (rule Cons.IH) (rule Cons.prems)
  show ?case
  proof (cases "passes f sh c")
    case True
    then show ?thesis using nr up by (simp add: show_children_Cons del: show_children.simps)
  next
    case False
    then show ?thesis using same by (simp add: show_children_Cons del: show_children.simps)
  qed
qed

lemma show_children_limited:
  assumes "k < N"
  shows "show_children e kw f sh (Some (LimitInt N)) k cs
    = map (item_for_child e kw) (take (nat (N - k)) (filter (passes f sh) cs))"
  using assms
proof (induction cs arbitrary: k)
  case Nil
  show ?case by simp
next
  case (Cons c cs)
  show ?case
  proof (cases "passes f sh c")
    case False
    then have "show_children e kw f sh (Some (LimitInt N)) k (c # cs)
        = show_children e kw f sh (Some (LimitInt N)) k cs"
      by (simp add: show_children_Cons del: show_children.simps)
    also have "\<dots> = map (item_for_child e kw) (take (nat (N - k)) (filter (passes f sh) cs))"
      using Cons.prems by (rule Cons.IH)
    finally show ?thesis using False by simp
  next
    case True
    have nat_eq: "nat (N - k) = Suc (nat (N - (k + 1)))" using Cons.prems by simp
    show ?thesis
    proof (cases "k + 1 = N")
      case eq: True
      then have "nat (N - (k + 1)) = 0" by simp
      with True eq nat_eq show ?thesis
        by (simp add: show_children_Cons limit_reached_def del: show_children.simps)
    next
      case neq: False
      with Cons.prems have lt: "k + 1 < N" by simp
      have "show_children e kw f sh (Some (LimitInt N)) k (c # cs)
          = item_for_child e kw c # show_children e kw f sh (Some (LimitInt N)) (k + 1) cs"
        using True neq by (simp add: show_children_Cons limit_reached_def del: show_children.simps)
      also have "show_children e kw f sh (Some (LimitInt N)) (k + 1) cs
          = map (item_for_child e kw) (take (nat (N - (k + 1))) (filter (passes f sh) cs))"
        using lt by (rule Cons.IH)
      finally show ?thesis using True nat_eq by simp
    qed
  qed
qed

lemma on_event_Inr:
  assumes "parse_query e prefs arg = Inr (p, f)" and "sorted_children e p = Inr cs"
  shows "on_event e prefs kw arg
    = Inr (RenderResultListAction
        ((if \<not> truthy f then [open_folder_item e p] else [])
         @ show_children e kw f (prefs ''fb_show_hidden'' = Some ''Yes'')
             (items_limit_of prefs) 0 cs))"
  using assms by (simp add: on_event_def)

lemma on_event_listing_Inl:
  assumes "parse_query e prefs arg = Inr (p, f)" and "listdir e p = Inl err"
  shows "on_event e prefs kw arg = Inl err"
  using assms by (simp add: on_event_def sorted_children_def)

lemma items_limit_of_int:
  "prefs ''fb_items_limit'' = Some s \<Longrightarrow> py_int s = Some N
    \<Longrightarrow> items_limit_of prefs = Some (LimitInt N)"
  by (simp add: items_limit_of_def)

lemma items_limit_of_no_int:
  "prefs ''fb_items_limit'' = None \<or> (\<exists>s. prefs ''fb_items_limit'' = Some s \<and> py_int s = None)
    \<Longrightarrow> \<not> limit_reached (items_limit_of prefs) m"
  by (auto simp: items_limit_of_def limit_reached_def)

text \<open>
  C7, as the code has it. A limit that \<open>int\<close> reads as \<open>N\<close> with \<open>1 \<le> N\<close> keeps the
  first \<open>N\<close> of the sorted children that pass the visibility and filter rules, so at most
  \<open>N\<close> entries follow the entry for the folder itself, which is not counted. With no
  limit configured, or one that \<open>int\<close> refuses, every child that passes is returned.
\<close>

theorem items_limit_truncation:
  "(\<forall>e prefs kw arg p f cs s N.
      parse_query e prefs arg = Inr (p, f) \<and> sorted_children e p = Inr cs
      \<and> prefs ''fb_items_limit'' = Some s \<and> py_int s = Some N \<and> 1 \<le> N \<longrightarrow>
      on_event e prefs kw arg
        = Inr (RenderResultListAction
            ((if \<not> truthy f then [open_folder_item e p] else [])
             @ map (item_for_child e kw)
                 (take (nat N) (filter (passes f (prefs ''fb_show_hidden'' = Some ''Yes'')) cs))))
      \<and> int (length (take (nat N)
            (filter (passes f (prefs ''fb_show_hidden'' = Some ''Yes'')) cs))) \<le> N)
   \<and> (\<forall>e prefs kw arg p f cs.
      parse_query e prefs arg = Inr (p, f) \<and> sorted_children e p = Inr cs
      \<and> (prefs ''fb_items_limit'' = None
         \<or> (\<exists>s. prefs ''fb_items_limit'' = Some s \<and> py_int s = None)) \<longrightarrow>
      on_event e prefs kw arg
        = Inr (RenderResultListAction
            ((if \<not> truthy f then [open_folder_item e p] else [])
             @ map (item_for_child e kw)
                 (filter (passes f (prefs ''fb_show_hidden'' = Some ''Yes'')) cs))))"
proof (intro conjI allI impI)
  fix e :: env and prefs :: preferences and kw arg p f cs s and N :: int
  assume h: "parse_query e prefs arg = Inr (p, f) \<and> sorted_children e p = Inr cs
      \<and> prefs ''fb_items_limit'' = Some s \<and> py_int s = Some N \<and> 1 \<le> N"
  then have lim: "items_limit_of prefs = Some (LimitInt N)"
    by (simp add: items_limit_of_int)
  from h have "0 < N" by simp
  then have "show_children e kw f (prefs ''fb_show_hidden'' = Some ''Yes'') (Some (LimitInt N)) 0 cs
      = map (item_for_child e kw)
          (take (nat (N - 0)) (filter (passes f (prefs ''fb_show_hidden'' = Some ''Yes'')) cs))"
    by (rule show_children_limited)
  with h lim show "on_event e prefs kw arg
        = Inr (RenderResultListAction
            ((if \<not> truthy f then [open_folder_item e p] else [])
             @ map (item_for_child e kw)
                 (take (nat N) (filter (passes f (prefs ''fb_show_hidden'' = Some ''Yes'')) cs))))"
    by (simp add: on_event_Inr)
  from h show "int (length (take (nat N)
            (filter (passes f (prefs ''fb_show_hidden'' = Some ''Yes'')) cs))) \<le> N"
    by (auto simp: min_def)
next
  fix e :: env and prefs :: preferences and kw arg p f cs
  assume h: "parse_query e prefs arg = Inr (p, f) \<and> sorted_children e p = Inr cs
      \<and> (prefs ''fb_items_limit'' = None
         \<or> (\<exists>s. prefs ''fb_items_limit'' = Some s \<and> py_int s = None))"
  then have "\<And>m. \<not> limit_reached (items_limit_of prefs) m"
    by (intro items_limit_of_no_int) blast
  then have "show_children e kw f (prefs ''fb_show_hidden'' = Some ''Yes'') (items_limit_of prefs) 0 cs
      = map (item_for_child e kw) (filter (passes f (prefs ''fb_show_hidden'' = Some ''Yes'')) cs)"
    by (intro show_children_unlimited)
  with h show "on_event e prefs kw arg
        = Inr (RenderResultListAction
            ((if \<not> truthy f then [open_folder_item e p] else [])
             @ map (item_for_child e kw)
                 (filter (passes f (prefs ''fb_show_hidden'' = Some ''Yes'')) cs)))"
    by (simp add: on_event_Inr)
qed

lemma example_parse_None:
  "parse_query example_env (example_prefs lim) None = Inr (Path ''/home/u'', None)"
  by code_simp

lemma example_sorted_home:
  "sorted_children example_env (Path ''/home/u'')
    = Inr [Path ''/home/u/docs'', Path ''/home/u/.profile'', Path ''/home/u/Zed'',
           Path ''/home/u/notes.txt'']"
  by code_simp

theorem items_limit_truncation_witness:
  "parse_query example_env (example_prefs (Some ''1'')) None = Inr (Path ''/home/u'', None)
   \<and> example_prefs (Some ''1'') ''fb_items_limit'' = Some ''1''
   \<and> py_int ''1'' = Some 1 \<and> (1 :: int) \<le> 1
   \<and> on_event example_env (example_prefs (Some ''1'')) ''f'' None
       = Inr (RenderResultListAction
           [open_folder_item example_env (Path ''/home/u''),
            item_for_child example_env ''f'' (Path ''/home/u/docs'')])"
proof -
  have p: "parse_query example_env (example_prefs (Some ''1'')) None
      = Inr (Path ''/home/u'', None)" by (rule example_parse_None)
  have l: "example_prefs (Some ''1'') ''fb_items_limit'' = Some ''1''"
    by (simp add: example_prefs_def)
  have i: "py_int ''1'' = Some 1" by code_simp
  have t: "take (nat 1) (filter (passes None (example_prefs (Some ''1'') ''fb_show_hidden'' = Some ''Yes''))
      [Path ''/home/u/docs'', Path ''/home/u/.profile'', Path ''/home/u/Zed'',
       Path ''/home/u/notes.txt'']) = [Path ''/home/u/docs'']"
    by code_simp
  have hyp: "parse_query example_env (example_prefs (Some ''1'')) None
        = Inr (Path ''/home/u'', None)
      \<and> sorted_children example_env (Path ''/home/u'')
        = Inr [Path ''/home/u/docs'', Path ''/home/u/.profile'', Path ''/home/u/Zed'',
               Path ''/home/u/notes.txt'']
      \<and> example_prefs (Some ''1'') ''fb_items_limit'' = Some ''1''
      \<and> py_int ''1'' = Some 1 \<and> (1 :: int) \<le> 1"
    by (simp add: p example_sorted_home l i)
  have "on_event example_env (example_prefs (Some ''1'')) ''f'' None
       = Inr (RenderResultListAction
           ((if \<not> truthy None then [open_folder_item example_env (Path ''/home/u'')] else [])
            @ map (item_for_child example_env ''f'')
                (take (nat 1)
                  (filter (passes None (example_prefs (Some ''1'') ''fb_show_hidden'' = Some ''Yes''))
                    [Path ''/home/u/docs'', Path ''/home/u/.profile'', Path ''/home/u/Zed'',
                     Path ''/home/u/notes.txt'']))))"
    by (rule items_limit_truncation [THEN conjunct1, rule_format, THEN conjunct1, OF hyp])
  then have "on_event example_env (example_prefs (Some ''1'')) ''f'' None
       = Inr (RenderResultListAction
           [open_folder_item example_env (Path ''/home/u''),
            item_for_child example_env ''f'' (Path ''/home/u/docs'')])"
    by (simp only: t) (simp add: truthy_def)
  with p l i show ?thesis by simp
qed

theorem items_limit_zero_counterexample:
  "py_int ''0'' = Some 0
   \<and> on_event example_env (example_prefs (Some ''0'')) ''f'' (Some ''o'')
       = Inr (RenderResultListAction
           [\<lparr>icon = ''images/default_folder.png'', name = ''docs'',
               on_enter = SetUserQueryAction ''f /home/u/docs/''\<rparr>,
            \<lparr>icon = ''images/default_file.png'', name = ''notes.txt'',
               on_enter = OpenAction ''/home/u/notes.txt''\<rparr>])"
  by code_simp

text \<open>
  A limit that \<open>int\<close> refuses stays a string and truncates nothing. This holds as well for
  digits behind a separator 0x1C, which \<open>str.strip\<close> would remove and \<open>int\<close> does not.
\<close>

lemma items_limit_separator:
  "py_int [CHR 0x1C, CHR ''1''] = None
   \<and> on_event example_env (example_prefs (Some [CHR 0x1C, CHR ''1''])) ''f'' None
       = Inr (RenderResultListAction
           [open_folder_item example_env (Path ''/home/u''),
            item_for_child example_env ''f'' (Path ''/home/u/docs''),
            item_for_child example_env ''f'' (Path ''/home/u/Zed''),
            item_for_child example_env ''f'' (Path ''/home/u/notes.txt'')])"
  by code_simp

text \<open>
  C8, as the code has it. The handler does not catch the error of the listing: when the
  base path cannot be listed (it does not exist, is not a directory, or may not be read),
  the error of the system leaves \<open>on_event\<close> and no result list is returned.
\<close>

theorem listing_error_propagates:
  "parse_query e prefs arg = Inr (p, f) \<and> listdir e p = Inl err \<longrightarrow>
     on_event e prefs kw arg = Inl err \<and> (\<forall>r. on_event e prefs kw arg \<noteq> Inr r)"
  by (auto simp: on_event_listing_Inl)

theorem listing_error_propagates_witness:
  "parse_query example_env (example_prefs None) (Some ''/home/u/notes.txt/'')
     = Inr (Path ''/home/u/notes.txt'', Some [])
   \<and> listdir example_env (Path ''/home/u/notes.txt'') = Inl NotADirectoryError
   \<and> on_event example_env (example_prefs None) ''f'' (Some ''/home/u/notes.txt/'')
     = Inl NotADirectoryError"
proof -
  have p: "parse_query example_env (example_prefs None) (Some ''/home/u/notes.txt/'')
     = Inr (Path ''/home/u/notes.txt'', Some [])" by code_simp
  have l: "listdir example_env (Path ''/home/u/notes.txt'') = Inl NotADirectoryError"
    by code_simp
  from p l show ?thesis
    using listing_error_propagates [of example_env "example_prefs None"
        "Some ''/home/u/notes.txt/''" "Path ''/home/u/notes.txt''" "Some []"
        NotADirectoryError "''f''"]
    by blast
qed

theorem missing_path_counterexample:
  "on_event example_env (example_prefs None) ''f'' (Some ''/missing/'') = Inl FileNotFoundError"
  by code_simp

section \<open>The entry for the folder itself\<close>

lemma path_str_child_neq:
  assumes "n \<noteq> []" and "n \<noteq> ''.''"
  shows "path_str (make_child_relpath p n) \<noteq> path_str p"
proof (cases "path_parts p = []")
  case True
  show ?thesis
  proof (cases "path_root p = []")
    case True
    with \<open>path_parts p = []\<close> assms show ?thesis
      by (simp add: path_str_def make_child_relpath_def)
  next
    case False
    with \<open>path_parts p = []\<close> assms show ?thesis
      by (simp add: path_str_def make_child_relpath_def)
  qed
next
  case False
  then have "str_join ''/'' (path_parts p @ [n]) = str_join ''/'' (path_parts p) @ ''/'' @ n"
    by (rule str_join_snoc)
  then have "length (path_str (make_child_relpath p n)) > length (path_str p)"
    using False by (simp add: path_str_def make_child_relpath_def)
  then show ?thesis by auto
qed


lemma item_for_child_neq_open_folder:
  assumes "n \<noteq> []" and "n \<noteq> ''.''"
  shows "item_for_child e kw (make_child_relpath p n) \<noteq> open_folder_item e p"
proof
  assume "item_for_child e kw (make_child_relpath p n) = open_folder_item e p"
  then have "on_enter (item_for_child e kw (make_child_relpath p n))
      = on_enter (open_folder_item e p)" by simp
  then have "item_action e kw (make_child_relpath p n) = OpenAction (path_str p)"
    by (simp add: item_for_child_def open_folder_item_def)
  then have "path_str (make_child_relpath p n) = path_str p"
    by (simp add: item_action_def split: if_splits)
  with path_str_child_neq [OF assms] show False by simp
qed

lemma set_show_children:
  "set (show_children e kw f sh lim k cs) \<subseteq> item_for_child e kw ` set cs"
proof (induction cs arbitrary: k)
  case Nil
  show ?case by simp
next
  case (Cons c cs)
  have mono: "item_for_child e kw ` set cs \<subseteq> item_for_child e kw ` set (c # cs)"
    by (rule image_mono) (rule set_subset_Cons)
  have a: "set (show_children e kw f sh lim k cs) \<subseteq> item_for_child e kw ` set (c # cs)"
    by (rule subset_trans [OF Cons.IH mono])
  have b: "set (show_children e kw f sh lim (k + 1) cs) \<subseteq> item_for_child e kw ` set (c # cs)"
    by (rule subset_trans [OF Cons.IH mono])
  have c: "item_for_child e kw c \<in> item_for_child e kw ` set (c # cs)"
    by (rule imageI) (rule list.set_intros(1))
  have d: "set [item_for_child e kw c] \<subseteq> item_for_child e kw ` set (c # cs)"
    using c by (simp only: list.set insert_subset empty_subsetI simp_thms)
  have e: "set (item_for_child e kw c # show_children e kw f sh lim (k + 1) cs)
      \<subseteq> item_for_child e kw ` set (c # cs)"
    using b c by (simp only: list.set insert_subset simp_thms)
  show ?case
  proof (cases "passes f sh c")
    case False
    then have "show_children e kw f sh lim k (c # cs) = show_children e kw f sh lim k cs"
      by (simp only: show_children_Cons if_False)
    with a show ?thesis by (simp only:)
  next
    case True
    show ?thesis
    proof (cases "limit_reached lim (k + 1)")
      case lr: True
      with True have "show_children e kw f sh lim k (c # cs) = [item_for_child e kw c]"
        by (simp only: show_children_Cons if_True)
      with d show ?thesis by (simp only:)
    next
      case lr: False
      with True have "show_children e kw f sh lim k (c # cs)
          = item_for_child e kw c # show_children e kw f sh lim (k + 1) cs"
        by (simp only: show_children_Cons if_True if_False)
      with e show ?thesis by (simp only:)
    qed
  qed
qed

lemma sorted_children_set:
  assumes "listdir e p = Inr names"
  shows "\<exists>cs. sorted_children e p = Inr cs \<and> set cs = make_child_relpath p ` set names"
  using assms by (simp add: sorted_children_def)

lemma count_list_open_folder:
  assumes "x \<notin> set rest"
  shows "count_list ((if b then [] else [x]) @ rest) x = (if b then 0 else 1)"
proof -
  from assms have "count_list rest x = 0" by (simp only: count_list_0_iff not_False_eq_True)
  then show ?thesis by (cases b) simp_all
qed

text \<open>
  C9. When the handler returns a list, the entry that opens the current folder is in it
  exactly once if the filter is empty and not at all otherwise; it is the first item; what
  follows it is the list of children, built with its own counter from 0, so neither the
  filter nor the limit touches the entry; and its action opens the base path. (The names
  a directory lists are never empty and never \<open>.\<close>.)
\<close>

theorem open_folder_item_invariant:
  "parse_query e prefs arg = Inr (p, f) \<and> listdir e p = Inr names
   \<and> (\<forall>n \<in> set names. n \<noteq> [] \<and> n \<noteq> ''.'') \<longrightarrow>
   (\<exists>items cs. on_event e prefs kw arg = Inr (RenderResultListAction items)
      \<and> sorted_children e p = Inr cs
      \<and> count_list items (open_folder_item e p) = (if truthy f then 0 else 1)
      \<and> (\<not> truthy f \<longrightarrow> take 1 items = [open_folder_item e p])
      \<and> drop (if truthy f then 0 else 1) items
          = show_children e kw f (prefs ''fb_show_hidden'' = Some ''Yes'')
              (items_limit_of prefs) 0 cs)
   \<and> on_enter (open_folder_item e p) = OpenAction (path_str p)"
proof (intro impI conjI)
  assume h: "parse_query e prefs arg = Inr (p, f) \<and> listdir e p = Inr names
   \<and> (\<forall>n \<in> set names. n \<noteq> [] \<and> n \<noteq> ''.'')"
  from h have h1: "parse_query e prefs arg = Inr (p, f)" by (rule conjunct1)
  from h have h2: "listdir e p = Inr names" by (rule conjunct2 [THEN conjunct1])
  from h have h3: "\<forall>n \<in> set names. n \<noteq> [] \<and> n \<noteq> ''.''" by (rule conjunct2 [THEN conjunct2])
  from sorted_children_set [OF h2] obtain cs where cs1: "sorted_children e p = Inr cs"
    and cs2: "set cs = make_child_relpath p ` set names"
    by (elim exE conjE)
  define rest where "rest = show_children e kw f (prefs ''fb_show_hidden'' = Some ''Yes'')
              (items_limit_of prefs) 0 cs"
  define items where "items = (if truthy f then [] else [open_folder_item e p]) @ rest"
  have ev: "on_event e prefs kw arg = Inr (RenderResultListAction items)"
    unfolding items_def rest_def on_event_Inr [OF h1 cs1] by (cases "truthy f") simp_all
  have notin: "open_folder_item e p \<notin> set rest"
  proof
    assume "open_folder_item e p \<in> set rest"
    with set_show_children [of e kw f "prefs ''fb_show_hidden'' = Some ''Yes''"
        "items_limit_of prefs" 0 cs]
    have "open_folder_item e p \<in> item_for_child e kw ` set cs"
      unfolding rest_def by (rule subsetD)
    then obtain c where c: "open_folder_item e p = item_for_child e kw c" "c \<in> set cs"
      by (rule imageE)
    from c(2) have "c \<in> make_child_relpath p ` set names" by (simp only: cs2)
    then obtain n where n: "c = make_child_relpath p n" "n \<in> set names"
      by (rule imageE)
    from bspec [OF h3 n(2)] have "n \<noteq> []" and "n \<noteq> ''.''"
      by (rule conjunct1, rule conjunct2)
    then have "item_for_child e kw (make_child_relpath p n) \<noteq> open_folder_item e p"
      by (rule item_for_child_neq_open_folder)
    with c(1) n(1) show False by (simp only:) (erule notE, rule refl)
  qed
  have cnt: "count_list items (open_folder_item e p) = (if truthy f then 0 else 1)"
    unfolding items_def using notin by (rule count_list_open_folder)
  have fst: "\<not> truthy f \<longrightarrow> take 1 items = [open_folder_item e p]"
    unfolding items_def by (cases "truthy f") simp_all
  have drp: "drop (if truthy f then 0 else 1) items = rest"
    unfolding items_def by (cases "truthy f") simp_all
  show "\<exists>items cs. on_event e prefs kw arg = Inr (RenderResultListAction items)
      \<and> sorted_children e p = Inr cs
      \<and> count_list items (open_folder_item e p) = (if truthy f then 0 else 1)
      \<and> (\<not> truthy f \<longrightarrow> take 1 items = [open_folder_item e p])
      \<and> drop (if truthy f then 0 else 1) items
          = show_children e kw f (prefs ''fb_show_hidden'' = Some ''Yes'')
              (items_limit_of prefs) 0 cs"
  proof (intro exI [of _ items] exI [of _ cs] conjI)
    show "on_event e prefs kw arg = Inr (RenderResultListAction items)" by (rule ev)
    show "sorted_children e p = Inr cs" by (rule cs1)
    show "count_list items (open_folder_item e p) = (if truthy f then 0 else 1)" by (rule cnt)
    show "\<not> truthy f \<longrightarrow> take 1 items = [open_folder_item e p]" by (rule fst)
    show "drop (if truthy f then 0 else 1) items
          = show_children e kw f (prefs ''fb_show_hidden'' = Some ''Yes'')
              (items_limit_of prefs) 0 cs"
      using drp unfolding rest_def .
  qed
next
  show "on_enter (open_folder_item e p) = OpenAction (path_str p)"
    unfolding open_folder_item_def by (rule ExtensionResultItem.select_convs)
qed

theorem open_folder_item_invariant_witness:
  "parse_query example_env (example_prefs (Some ''1'')) None = Inr (Path ''/home/u'', None)
   \<and> listdir example_env (Path ''/home/u'') = Inr [''notes.txt'', ''.profile'', ''docs'', ''Zed'']
   \<and> list_all (\<lambda>n. n \<noteq> [] \<and> n \<noteq> ''.'') [''notes.txt'', ''.profile'', ''docs'', ''Zed'']
   \<and> (\<exists>items cs.
        on_event example_env (example_prefs (Some ''1'')) ''f'' None
          = Inr (RenderResultListAction items)
        \<and> sorted_children example_env (Path ''/home/u'') = Inr cs
        \<and> count_list items (open_folder_item example_env (Path ''/home/u''))
            = (if truthy None then 0 else 1)
        \<and> (\<not> truthy None \<longrightarrow> take 1 items = [open_folder_item example_env (Path ''/home/u'')])
        \<and> drop (if truthy None then 0 else 1) items
            = show_children example_env ''f'' None
                (example_prefs (Some ''1'') ''fb_show_hidden'' = Some ''Yes'')
                (items_limit_of (example_prefs (Some ''1''))) 0 cs)
   \<and> on_enter (open_folder_item example_env (Path ''/home/u'')) = OpenAction ''/home/u''"
proof -
  have p: "parse_query example_env (example_prefs (Some ''1'')) None
      = Inr (Path ''/home/u'', None)" by code_simp
  have l: "listdir example_env (Path ''/home/u'')
      = Inr [''notes.txt'', ''.profile'', ''docs'', ''Zed'']" by code_simp
  have v: "\<forall>n \<in> set [''notes.txt'', ''.profile'', ''docs'', ''Zed'']. n \<noteq> [] \<and> n \<noteq> ''.''"
    by simp
  have v': "list_all (\<lambda>n. n \<noteq> [] \<and> n \<noteq> ''.'') [''notes.txt'', ''.profile'', ''docs'', ''Zed'']"
    by simp
  have s: "path_str (Path ''/home/u'') = ''/home/u''" by code_simp
  note r = open_folder_item_invariant [where kw = "''f''", THEN mp, OF conjI [OF p conjI [OF l v]]]
  from r [THEN conjunct2] have a: "on_enter (open_folder_item example_env (Path ''/home/u''))
      = OpenAction ''/home/u''" by (simp only: s)
  show ?thesis
    by (intro conjI p l v' r [THEN conjunct1] a)
qed

section \<open>Properties of the order of the listing\<close>

lemma path_name_child: "path_name (make_child_relpath p n) = n"
  by (simp add: path_name_def make_child_relpath_def)

lemma sort_key_of_child:
  "sort_key_of e (make_child_relpath p n) = (\<not> is_dir e (make_child_relpath p n), n)"
  by (simp add: sort_key_of_def path_name_child)

lemma inj_on_sort_key_of:
  assumes "distinct names"
  shows "inj_on (sort_key_of e) (set (map (make_child_relpath p) names))"
proof (rule inj_onI)
  fix x y
  assume x: "x \<in> set (map (make_child_relpath p) names)"
    and y: "y \<in> set (map (make_child_relpath p) names)"
    and eq: "sort_key_of e x = sort_key_of e y"
  from x obtain n where n: "x = make_child_relpath p n" by (auto simp only: set_map)
  from y obtain m where m: "y = make_child_relpath p m" by (auto simp only: set_map)
  from eq have "snd (sort_key_of e x) = snd (sort_key_of e y)" by (rule arg_cong)
  then have "n = m" unfolding n m sort_key_of_child by (simp only: snd_conv)
  then show "x = y" unfolding n m by (rule arg_cong)
qed

lemma sort_key_of_cong: "is_dir e' = is_dir e \<Longrightarrow> sort_key_of e' = sort_key_of e"
  by (rule ext) (simp add: sort_key_of_def)

lemma key_le_folders_first:
  assumes "sort_key_of e a \<le> sort_key_of e b"
  shows "(is_dir e b \<longrightarrow> is_dir e a)
    \<and> (is_dir e a = is_dir e b \<longrightarrow> path_name a \<le> path_name b)"
proof -
  from assms have "(\<not> is_dir e a) < (\<not> is_dir e b)
      \<or> (\<not> is_dir e a) \<le> (\<not> is_dir e b) \<and> path_name a \<le> path_name b"
    unfolding sort_key_of_def less_eq_prod_def by (simp only: fst_conv snd_conv)
  then show ?thesis by (cases "is_dir e a"; cases "is_dir e b") simp_all
qed

lemma sorted_folders_first:
  assumes "sorted (map (sort_key_of e) cs)" and "i < j" and "j < length cs"
  shows "(is_dir e (cs ! j) \<longrightarrow> is_dir e (cs ! i))
    \<and> (is_dir e (cs ! i) = is_dir e (cs ! j) \<longrightarrow> path_name (cs ! i) \<le> path_name (cs ! j))"
proof (rule key_le_folders_first)
  from assms(2) have le: "i \<le> j" by (rule less_imp_le)
  from assms(3) have j: "j < length (map (sort_key_of e) cs)" by (simp only: length_map)
  from sorted_nth_mono [OF assms(1) le j]
  show "sort_key_of e (cs ! i) \<le> sort_key_of e (cs ! j)"
    using assms(2,3) by (simp only: nth_map less_trans [OF assms(2) assms(3)])
qed

lemma sorted_take_filter:
  assumes "sorted (map f cs)"
  shows "sorted (map f (take n (filter P cs)))"
proof -
  from assms have "sorted (map f (filter P cs))" by (rule sorted_filter)
  then have "sorted (take n (map f (filter P cs)))" by (rule sorted_wrt_take)
  then show ?thesis by (simp only: take_map)
qed

lemma show_children_take:
  "\<exists>n. show_children e kw f sh lim k cs
     = map (item_for_child e kw) (take n (filter (passes f sh) cs))"
proof (cases "\<exists>N. lim = Some (LimitInt N) \<and> k < N")
  case True
  then obtain N where "lim = Some (LimitInt N)" and "k < N" by (elim exE conjE)
  then have "show_children e kw f sh lim k cs
      = map (item_for_child e kw) (take (nat (N - k)) (filter (passes f sh) cs))"
    by (simp only: show_children_limited)
  then show ?thesis by (rule exI)
next
  case False
  have nr: "\<not> limit_reached lim m" if "k < m" for m
  proof (cases lim)
    case None
    then show ?thesis by (simp add: limit_reached_def)
  next
    case (Some l)
    show ?thesis
    proof (cases l)
      case (LimitInt N)
      with Some False have "\<not> k < N" by simp
      with that have "m \<noteq> N" by simp
      with Some LimitInt show ?thesis by (simp add: limit_reached_def)
    next
      case (LimitStr s)
      with Some show ?thesis by (simp add: limit_reached_def)
    qed
  qed
  have "show_children e kw f sh lim k cs
      = map (item_for_child e kw) (filter (passes f sh) cs)"
    by (rule show_children_unlimited) (rule nr)
  also have "filter (passes f sh) cs
      = take (length (filter (passes f sh) cs)) (filter (passes f sh) cs)"
    by (simp only: take_all order_refl)
  finally show ?thesis by (rule exI)
qed

text \<open>
  C6. The children of a directory are sorted by the key (is not a directory, name): the
  sorted list is a rearrangement of the listing, its keys ascend, so every directory
  stands before every file and within each group the names ascend in the ordinary order
  of strings; the children that the handler returns are taken from this list in order and
  so keep the property; and the result does not depend on the order in which the system
  lists the (distinct) names.
\<close>

theorem sorted_children_folders_first:
  "listdir e p = Inr names \<longrightarrow>
   (\<exists>cs. sorted_children e p = Inr cs
      \<and> mset cs = mset (map (make_child_relpath p) names)
      \<and> sorted (map (sort_key_of e) cs)
      \<and> (\<forall>i j. i < j \<and> j < length cs \<longrightarrow>
            (is_dir e (cs ! j) \<longrightarrow> is_dir e (cs ! i))
            \<and> (is_dir e (cs ! i) = is_dir e (cs ! j)
                \<longrightarrow> path_name (cs ! i) \<le> path_name (cs ! j)))
      \<and> (\<forall>prefs kw arg f. parse_query e prefs arg = Inr (p, f) \<longrightarrow>
            (\<exists>shown. on_event e prefs kw arg
                = Inr (RenderResultListAction
                    ((if \<not> truthy f then [open_folder_item e p] else [])
                     @ map (item_for_child e kw) shown))
              \<and> sorted (map (sort_key_of e) shown)
              \<and> (\<forall>i j. i < j \<and> j < length shown \<longrightarrow>
                    (is_dir e (shown ! j) \<longrightarrow> is_dir e (shown ! i))
                    \<and> (is_dir e (shown ! i) = is_dir e (shown ! j)
                        \<longrightarrow> path_name (shown ! i) \<le> path_name (shown ! j)))))
      \<and> (\<forall>e' names'. listdir e' p = Inr names' \<and> mset names' = mset names
            \<and> distinct names \<and> is_dir e' = is_dir e \<longrightarrow>
            sorted_children e' p = Inr cs))"
proof
  assume l: "listdir e p = Inr names"
  define cs where "cs = sort_key (sort_key_of e) (map (make_child_relpath p) names)"
  have sc: "sorted_children e p = Inr cs"
    unfolding cs_def sorted_children_def by (simp only: l sum.case)
  have ms: "mset cs = mset (map (make_child_relpath p) names)"
    unfolding cs_def by (rule mset_sort)
  have so: "sorted (map (sort_key_of e) cs)"
    unfolding cs_def by (rule sorted_sort_key)
  have ff: "\<forall>i j. i < j \<and> j < length cs \<longrightarrow>
            (is_dir e (cs ! j) \<longrightarrow> is_dir e (cs ! i))
            \<and> (is_dir e (cs ! i) = is_dir e (cs ! j)
                \<longrightarrow> path_name (cs ! i) \<le> path_name (cs ! j))"
  proof (intro allI impI)
    fix i j assume "i < j \<and> j < length cs"
    then have "i < j" and "j < length cs" by (rule conjunct1, rule conjunct2)
    with so show "(is_dir e (cs ! j) \<longrightarrow> is_dir e (cs ! i))
            \<and> (is_dir e (cs ! i) = is_dir e (cs ! j)
                \<longrightarrow> path_name (cs ! i) \<le> path_name (cs ! j))"
      by (rule sorted_folders_first)
  qed
  have ret: "\<forall>prefs kw arg f. parse_query e prefs arg = Inr (p, f) \<longrightarrow>
            (\<exists>shown. on_event e prefs kw arg
                = Inr (RenderResultListAction
                    ((if \<not> truthy f then [open_folder_item e p] else [])
                     @ map (item_for_child e kw) shown))
              \<and> sorted (map (sort_key_of e) shown)
              \<and> (\<forall>i j. i < j \<and> j < length shown \<longrightarrow>
                    (is_dir e (shown ! j) \<longrightarrow> is_dir e (shown ! i))
                    \<and> (is_dir e (shown ! i) = is_dir e (shown ! j)
                        \<longrightarrow> path_name (shown ! i) \<le> path_name (shown ! j))))"
  proof (intro allI impI)
    fix prefs :: preferences and kw arg f
    assume pq: "parse_query e prefs arg = Inr (p, f)"
    obtain n where n: "show_children e kw f (prefs ''fb_show_hidden'' = Some ''Yes'')
          (items_limit_of prefs) 0 cs
        = map (item_for_child e kw)
            (take n (filter (passes f (prefs ''fb_show_hidden'' = Some ''Yes'')) cs))"
      using show_children_take by (rule exE)
    define shown where
      "shown = take n (filter (passes f (prefs ''fb_show_hidden'' = Some ''Yes'')) cs)"
    have ev: "on_event e prefs kw arg
                = Inr (RenderResultListAction
                    ((if \<not> truthy f then [open_folder_item e p] else [])
                     @ map (item_for_child e kw) shown))"
      unfolding shown_def on_event_Inr [OF pq sc] by (simp only: n)
    have ss: "sorted (map (sort_key_of e) shown)"
      unfolding shown_def using so by (rule sorted_take_filter)
    have sf: "\<forall>i j. i < j \<and> j < length shown \<longrightarrow>
                    (is_dir e (shown ! j) \<longrightarrow> is_dir e (shown ! i))
                    \<and> (is_dir e (shown ! i) = is_dir e (shown ! j)
                        \<longrightarrow> path_name (shown ! i) \<le> path_name (shown ! j))"
    proof (intro allI impI)
      fix i j assume "i < j \<and> j < length shown"
      then have "i < j" and "j < length shown" by (rule conjunct1, rule conjunct2)
      with ss show "(is_dir e (shown ! j) \<longrightarrow> is_dir e (shown ! i))
                    \<and> (is_dir e (shown ! i) = is_dir e (shown ! j)
                        \<longrightarrow> path_name (shown ! i) \<le> path_name (shown ! j))"
        by (rule sorted_folders_first)
    qed
    from ev ss sf
    show "\<exists>shown. on_event e prefs kw arg
                = Inr (RenderResultListAction
                    ((if \<not> truthy f then [open_folder_item e p] else [])
                     @ map (item_for_child e kw) shown))
              \<and> sorted (map (sort_key_of e) shown)
              \<and> (\<forall>i j. i < j \<and> j < length shown \<longrightarrow>
                    (is_dir e (shown ! j) \<longrightarrow> is_dir e (shown ! i))
                    \<and> (is_dir e (shown ! i) = is_dir e (shown ! j)
                        \<longrightarrow> path_name (shown ! i) \<le> path_name (shown ! j)))"
      by (intro exI [of _ shown] conjI)
  qed
  have det: "\<forall>e' names'. listdir e' p = Inr names' \<and> mset names' = mset names
            \<and> distinct names \<and> is_dir e' = is_dir e \<longrightarrow>
            sorted_children e' p = Inr cs"
  proof (intro allI impI)
    fix e' :: env and names'
    assume h: "listdir e' p = Inr names' \<and> mset names' = mset names
            \<and> distinct names \<and> is_dir e' = is_dir e"
    then have l': "listdir e' p = Inr names'" by (rule conjunct1)
    from h have m: "mset names' = mset names" by (rule conjunct2 [THEN conjunct1])
    from h have d: "distinct names" by (rule conjunct2 [THEN conjunct2, THEN conjunct1])
    from h have i: "is_dir e' = is_dir e" by (rule conjunct2 [THEN conjunct2, THEN conjunct2])
    have k: "sort_key_of e' = sort_key_of e" using i by (rule sort_key_of_cong)
    have mm: "mset (map (make_child_relpath p) names)
        = mset (map (make_child_relpath p) names')"
      using m by (simp only: mset_map)
    have "sort_key (sort_key_of e) (map (make_child_relpath p) names)
        = sort_key (sort_key_of e) (map (make_child_relpath p) names')"
      using mm inj_on_sort_key_of [OF d] by (rule sort_key_eq_sort_key)
    then have "sort_key (sort_key_of e') (map (make_child_relpath p) names') = cs"
      unfolding cs_def k by (rule sym)
    then show "sorted_children e' p = Inr cs"
      unfolding sorted_children_def by (simp only: l' sum.case)
  qed
  from sc ms so ff ret det
  show "\<exists>cs. sorted_children e p = Inr cs
      \<and> mset cs = mset (map (make_child_relpath p) names)
      \<and> sorted (map (sort_key_of e) cs)
      \<and> (\<forall>i j. i < j \<and> j < length cs \<longrightarrow>
            (is_dir e (cs ! j) \<longrightarrow> is_dir e (cs ! i))
            \<and> (is_dir e (cs ! i) = is_dir e (cs ! j)
                \<longrightarrow> path_name (cs ! i) \<le> path_name (cs ! j)))
      \<and> (\<forall>prefs kw arg f. parse_query e prefs arg = Inr (p, f) \<longrightarrow>
            (\<exists>shown. on_event e prefs kw arg
                = Inr (RenderResultListAction
                    ((if \<not> truthy f then [open_folder_item e p] else [])
                     @ map (item_for_child e kw) shown))
              \<and> sorted (map (sort_key_of e) shown)
              \<and> (\<forall>i j. i < j \<and> j < length shown \<longrightarrow>
                    (is_dir e (shown ! j) \<longrightarrow> is_dir e (shown ! i))
                    \<and> (is_dir e (shown ! i) = is_dir e (shown ! j)
                        \<longrightarrow> path_name (shown ! i) \<le> path_name (shown ! j)))))
      \<and> (\<forall>e' names'. listdir e' p = Inr names' \<and> mset names' = mset names
            \<and> distinct names \<and> is_dir e' = is_dir e \<longrightarrow>
            sorted_children e' p = Inr cs)"
    by (intro exI [of _ cs] conjI)
qed

theorem sorted_children_folders_first_witness:
  "listdir example_env (Path ''/home/u'') = Inr [''notes.txt'', ''.profile'', ''docs'', ''Zed'']
   \<and> sorted_children example_env (Path ''/home/u'')
       = Inr [Path ''/home/u/docs'', Path ''/home/u/.profile'', Path ''/home/u/Zed'',
              Path ''/home/u/notes.txt'']
   \<and> (0 :: nat) < 1 \<and> (1 :: nat) < 2
   \<and> 2 < length [Path ''/home/u/docs'', Path ''/home/u/.profile'', Path ''/home/u/Zed'',
                   Path ''/home/u/notes.txt'']
   \<and> is_dir example_env (Path ''/home/u/docs'')
   \<and> path_name (Path ''/home/u/.profile'') \<le> path_name (Path ''/home/u/Zed'')
   \<and> parse_query example_env (example_prefs None) None = Inr (Path ''/home/u'', None)
   \<and> (\<exists>shown. on_event example_env (example_prefs None) ''f'' None
         = Inr (RenderResultListAction
             ((if \<not> truthy None then [open_folder_item example_env (Path ''/home/u'')] else [])
              @ map (item_for_child example_env ''f'') shown))
        \<and> sorted (map (sort_key_of example_env) shown))
   \<and> distinct [''notes.txt'', ''.profile'', ''docs'', ''Zed'']
   \<and> sorted_children
        (example_env\<lparr>listdir := (\<lambda>p. Inr (rev [''notes.txt'', ''.profile'', ''docs'', ''Zed'']))\<rparr>)
        (Path ''/home/u'')
       = Inr [Path ''/home/u/docs'', Path ''/home/u/.profile'', Path ''/home/u/Zed'',
              Path ''/home/u/notes.txt'']"
proof -
  define names where "names = [''notes.txt'', ''.profile'', ''docs'', ''Zed'']"
  define e' where "e' = example_env\<lparr>listdir := (\<lambda>p. Inr (rev names))\<rparr>"
  define sorted_home where
    "sorted_home = [Path ''/home/u/docs'', Path ''/home/u/.profile'', Path ''/home/u/Zed'',
                    Path ''/home/u/notes.txt'']"
  have l: "listdir example_env (Path ''/home/u'') = Inr names"
    unfolding names_def by code_simp
  have sh: "sorted_children example_env (Path ''/home/u'') = Inr sorted_home"
    unfolding sorted_home_def by (rule example_sorted_home)
  obtain cs where sc: "sorted_children example_env (Path ''/home/u'') = Inr cs"
    and ff: "\<forall>i j. i < j \<and> j < length cs \<longrightarrow>
            (is_dir example_env (cs ! j) \<longrightarrow> is_dir example_env (cs ! i))
            \<and> (is_dir example_env (cs ! i) = is_dir example_env (cs ! j)
                \<longrightarrow> path_name (cs ! i) \<le> path_name (cs ! j))"
    and ret: "\<forall>prefs kw arg f.
        parse_query example_env prefs arg = Inr (Path ''/home/u'', f) \<longrightarrow>
            (\<exists>shown. on_event example_env prefs kw arg
                = Inr (RenderResultListAction
                    ((if \<not> truthy f then [open_folder_item example_env (Path ''/home/u'')]
                      else [])
                     @ map (item_for_child example_env kw) shown))
              \<and> sorted (map (sort_key_of example_env) shown)
              \<and> (\<forall>i j. i < j \<and> j < length shown \<longrightarrow>
                    (is_dir example_env (shown ! j) \<longrightarrow> is_dir example_env (shown ! i))
                    \<and> (is_dir example_env (shown ! i) = is_dir example_env (shown ! j)
                        \<longrightarrow> path_name (shown ! i) \<le> path_name (shown ! j))))"
    and det: "\<forall>e' names'. listdir e' (Path ''/home/u'') = Inr names'
            \<and> mset names' = mset names
            \<and> distinct names \<and> is_dir e' = is_dir example_env \<longrightarrow>
            sorted_children e' (Path ''/home/u'') = Inr cs"
    using sorted_children_folders_first [of example_env "Path ''/home/u''" names, THEN mp, OF l]
    by (elim exE conjE)
  have cs: "cs = sorted_home" using sc sh by (simp only: sum.inject)
  have i12: "(1 :: nat) < 2 \<and> 2 < length sorted_home" unfolding sorted_home_def by simp
  have n1: "sorted_home ! 1 = Path ''/home/u/.profile''" unfolding sorted_home_def by simp
  have n2: "sorted_home ! 2 = Path ''/home/u/Zed''" unfolding sorted_home_def by simp
  have a: "is_dir example_env (Path ''/home/u/docs'')" by code_simp
  have same: "is_dir example_env (Path ''/home/u/.profile'')
      = is_dir example_env (Path ''/home/u/Zed'')" by code_simp
  have b: "path_name (Path ''/home/u/.profile'') \<le> path_name (Path ''/home/u/Zed'')"
    using ff [unfolded cs, rule_format, OF i12, THEN conjunct2] same by (simp only: n1 n2)
  have p: "parse_query example_env (example_prefs None) None = Inr (Path ''/home/u'', None)"
    by (rule example_parse_None)
  obtain shown where ev: "on_event example_env (example_prefs None) ''f'' None
         = Inr (RenderResultListAction
             ((if \<not> truthy None then [open_folder_item example_env (Path ''/home/u'')] else [])
              @ map (item_for_child example_env ''f'') shown))"
    and ss: "sorted (map (sort_key_of example_env) shown)"
    using ret [rule_format, OF p, of "''f''"] by (elim exE conjE)
  have r: "\<exists>shown. on_event example_env (example_prefs None) ''f'' None
         = Inr (RenderResultListAction
             ((if \<not> truthy None then [open_folder_item example_env (Path ''/home/u'')] else [])
              @ map (item_for_child example_env ''f'') shown))
        \<and> sorted (map (sort_key_of example_env) shown)"
    using ev ss by (intro exI [of _ shown] conjI)
  have d: "distinct names" unfolding names_def by code_simp
  have l': "listdir e' (Path ''/home/u'') = Inr (rev names)" unfolding e'_def by simp
  have m: "mset (rev names) = mset names" by (rule mset_rev)
  have id: "is_dir e' = is_dir example_env" unfolding e'_def by simp
  have h: "listdir e' (Path ''/home/u'') = Inr (rev names) \<and> mset (rev names) = mset names
      \<and> distinct names \<and> is_dir e' = is_dir example_env"
    using l' m d id by (intro conjI)
  have s': "sorted_children e' (Path ''/home/u'') = Inr sorted_home"
    using det [rule_format, OF h] by (simp only: cs)
  have len: "2 < length sorted_home" unfolding sorted_home_def by simp
  have "(0 :: nat) < 1" and "(1 :: nat) < 2" by simp_all
  with l sh len a b p r d s' show ?thesis
    unfolding names_def e'_def sorted_home_def by (intro conjI)
qed

section \<open>Properties of the descent into a folder\<close>

lemma str_split_str_join:
  "xs \<noteq> [] \<Longrightarrow> \<forall>x\<in>set xs. sep \<notin> set x \<Longrightarrow> str_split sep (str_join [sep] xs) = xs"
proof (induction xs)
  case Nil
  then show ?case by simp
next
  case (Cons x xs)
  from Cons.prems have x: "sep \<notin> set x" by simp
  show ?case
  proof (cases "xs = []")
    case True
    with x show ?thesis by (simp add: str_split_no_sep)
  next
    case False
    from Cons.prems have "\<forall>y\<in>set xs. sep \<notin> set y" by simp
    with False have IH: "str_split sep (str_join [sep] xs) = xs" by (rule Cons.IH)
    have "str_join [sep] (x # xs) = x @ sep # str_join [sep] xs"
      using False by (simp add: str_join_Cons)
    then show ?thesis using x IH by (simp add: str_split_append)
  qed
qed

lemma str_split_pieces: "x \<in> set (str_split sep s) \<Longrightarrow> sep \<notin> set x"
proof (induction s arbitrary: x)
  case Nil
  then show ?case by simp
next
  case (Cons c s)
  obtain h t where ht: "str_split sep s = h # t"
    using str_split_not_Nil [of sep s] by (cases "str_split sep s") auto
  have h: "sep \<notin> set h" by (rule Cons.IH) (simp add: ht)
  have t: "\<And>y. y \<in> set t \<Longrightarrow> sep \<notin> set y" by (rule Cons.IH) (simp add: ht)
  show ?case
  proof (cases "c = sep")
    case True
    with Cons.prems ht have "x = [] \<or> x = h \<or> x \<in> set t" by (simp add: Let_def)
    with h t show ?thesis by auto
  next
    case False
    with Cons.prems ht have "x = c # h \<or> x \<in> set t" by (simp add: Let_def)
    with False h t show ?thesis by auto
  qed
qed

lemma wf_path_Path: "wf_path (Path s)"
proof -
  have "list_all valid_name
      (filter (\<lambda>x. x \<noteq> [] \<and> x \<noteq> ''.'') (str_split CHR ''/'' r))" for r
    using str_split_pieces [of _ "CHR ''/''" r] by (auto simp: list_all_iff valid_name_def)
  then show ?thesis
    by (simp add: Path_def wf_path_def splitroot_def)
qed

lemma take1_join_not_sep:
  assumes "list_all valid_name xs"
  shows "take 1 (str_join ''/'' xs) \<noteq> ''/''"
proof (cases xs)
  case Nil
  then show ?thesis by simp
next
  case (Cons x ys)
  with assms have "valid_name x" by simp
  then obtain c r where x: "x = c # r" and c: "c \<noteq> CHR ''/''"
    by (cases x) (auto simp: valid_name_def)
  have "str_join ''/'' (x # ys) = c # tl (str_join ''/'' (x # ys))"
    by (cases ys) (simp_all add: x)
  then have "take 1 (str_join ''/'' (x # ys)) = [c]"
    by (metis One_nat_def take_Suc_Cons take0)
  with c Cons show ?thesis by simp
qed

lemma split_join_parts:
  assumes "list_all valid_name xs"
  shows "filter (\<lambda>x. x \<noteq> [] \<and> x \<noteq> ''.'') (str_split CHR ''/'' (str_join ''/'' xs)) = xs"
proof (cases "xs = []")
  case True
  then show ?thesis by simp
next
  case False
  from assms have v: "\<forall>x\<in>set xs. x \<noteq> [] \<and> x \<noteq> ''.'' \<and> CHR ''/'' \<notin> set x"
    by (simp add: list_all_iff valid_name_def)
  then have "\<forall>x\<in>set xs. CHR ''/'' \<notin> set x" by simp
  with False have "str_split CHR ''/'' (str_join [CHR ''/''] xs) = xs"
    by (rule str_split_str_join)
  moreover have "filter (\<lambda>x. x \<noteq> [] \<and> x \<noteq> ''.'') xs = xs"
    using v by (simp add: filter_id_conv)
  ultimately show ?thesis by simp
qed

lemma Path_path_str:
  assumes "wf_path p"
  shows "Path (path_str p) = p"
proof -
  obtain r ps where p: "p = PurePath r ps" by (cases p)
  from assms p have v: "list_all valid_name ps" and r: "r = [] \<or> r = ''/'' \<or> r = ''//''"
    by (simp_all add: wf_path_def)
  note t = take1_join_not_sep [OF v]
  note f = split_join_parts [OF v]
  from r consider "r = []" "ps = []" | "r = []" "ps \<noteq> []" | "r = ''/''" | "r = ''//''"
    by blast
  then show ?thesis
  proof cases
    case 1
    then show ?thesis by (simp add: p path_str_def Path_def splitroot_def)
  next
    case 2
    then have "path_str p = str_join ''/'' ps" by (simp add: p path_str_def)
    moreover have "splitroot (str_join ''/'' ps) = ([], str_join ''/'' ps)"
      using t by (simp add: splitroot_def)
    ultimately show ?thesis using 2 f by (simp add: p Path_def)
  next
    case 3
    then have "path_str p = CHR ''/'' # str_join ''/'' ps" by (simp add: p path_str_def)
    moreover have "splitroot (CHR ''/'' # str_join ''/'' ps) = (''/'', str_join ''/'' ps)"
      using t by (simp add: splitroot_def)
    ultimately show ?thesis using 3 f by (simp add: p Path_def)
  next
    case 4
    then have "path_str p = CHR ''/'' # CHR ''/'' # str_join ''/'' ps"
      by (simp add: p path_str_def)
    moreover have "splitroot (CHR ''/'' # CHR ''/'' # str_join ''/'' ps)
        = (''//'', str_join ''/'' ps)"
      using t by (simp add: splitroot_def numeral_2_eq_2)
    ultimately show ?thesis using 4 f by (simp add: p Path_def)
  qed
qed

lemma expanduser_unchanged:
  "path_root p \<noteq> [] \<or> path_parts p = [] \<or> \<not> startswith (hd (path_parts p)) ''~''
    \<Longrightarrow> expanduser h p = Inr p"
  by (auto simp: expanduser_def)

lemma wf_path_child: "wf_path p \<Longrightarrow> valid_name n \<Longrightarrow> wf_path (make_child_relpath p n)"
  by (simp add: wf_path_def make_child_relpath_def)

lemma wf_path_expanduser:
  assumes "wf_path p" and "expanduser h p = Inr q"
  shows "wf_path q"
proof (cases "path_root p = [] \<and> path_parts p \<noteq> [] \<and> startswith (hd (path_parts p)) ''~''")
  case False
  with assms show ?thesis by (auto simp: expanduser_def)
next
  case True
  with assms(2) obtain homedir where
    q: "q = PurePath (path_root (Path homedir)) (path_parts (Path homedir) @ tl (path_parts p))"
    by (auto simp: expanduser_def split: option.splits)
  have w: "wf_path (Path homedir)" by (rule wf_path_Path)
  from assms(1) have "list_all valid_name (tl (path_parts p))"
    by (cases "path_parts p") (simp_all add: wf_path_def)
  with w show ?thesis by (simp add: q wf_path_def)
qed

lemma wf_path_current:
  assumes "current_path_and_filter prefs arg = Inr (p, f)"
  shows "wf_path p"
proof -
  from assms have "\<exists>s. p = Path s"
    by (auto simp: current_path_and_filter_def default_path_and_filter_def Let_def
        split: option.splits if_splits)
  then show ?thesis by (auto simp: wf_path_Path)
qed

lemma wf_path_parse_query:
  assumes "parse_query e prefs arg = Inr (p, f)"
  shows "wf_path p"
proof -
  from assms obtain p0 where c: "current_path_and_filter prefs arg = Inr (p0, f)"
    and x: "expanduser (gethomedir e) p0 = Inr p"
    by (auto simp: parse_query_def split: sum.splits)
  from c have "wf_path p0" by (rule wf_path_current)
  then show ?thesis using x by (rule wf_path_expanduser)
qed

lemma current_path_and_filter_dir:
  "current_path_and_filter prefs (Some (s @ ''/'')) = Inr (Path s, Some [])"
proof -
  have "CHR ''/'' \<in> set (s @ ''/'')" by simp
  then have "current_path_and_filter prefs (Some (s @ ''/''))
    = Inr (Path (str_join ''/'' (butlast (str_split CHR ''/'' (s @ ''/'')))),
           Some (last (str_split CHR ''/'' (s @ ''/''))))"
    by (rule current_path_and_filter_sep)
  moreover have "str_join ''/'' (butlast (str_split CHR ''/'' (s @ CHR ''/'' # []))) = s"
    by (rule split_at_last_sep(1)) simp
  moreover have "last (str_split CHR ''/'' (s @ CHR ''/'' # [])) = []"
    by (rule split_at_last_sep(2)) simp
  ultimately show ?thesis by simp
qed

lemma parse_query_dir:
  assumes "wf_path c"
    and "path_root c \<noteq> [] \<or> path_parts c = [] \<or> \<not> startswith (hd (path_parts c)) ''~''"
  shows "parse_query e prefs (Some (path_str c @ ''/'')) = Inr (c, Some [])"
proof -
  have "current_path_and_filter prefs (Some (path_str c @ ''/''))
      = Inr (Path (path_str c), Some [])"
    by (rule current_path_and_filter_dir)
  then have "current_path_and_filter prefs (Some (path_str c @ ''/'')) = Inr (c, Some [])"
    by (simp only: Path_path_str [OF assms(1)])
  moreover have "expanduser (gethomedir e) c = Inr c"
    using assms(2) by (rule expanduser_unchanged)
  ultimately show ?thesis by (simp add: parse_query_def)
qed

text \<open>
  C5, as the code has it. For every directory entry and every keyword the action of the
  entry rewrites the query to the keyword, a space, \<open>str\<close> of the entry's path (the base
  path extended by the entry's name, so it has the root of the base path and is absolute
  exactly when the base path is) and a trailing \<open>/\<close>, and every rewriting action in the
  result of the handler is of this form. When the entry's path is absolute, or its first
  component does not start with \<open>~\<close>, parsing the text after the keyword again yields the
  entry's path as base path and the empty filter. The names that the system lists are taken
  to be file names: not empty, not \<open>.\<close>, and free of \<open>/\<close>.
\<close>

theorem descend_round_trip:
  "parse_query e prefs arg = Inr (p, f) \<and> listdir e p = Inr names
    \<and> list_all valid_name names \<longrightarrow>
   (\<exists>cs. sorted_children e p = Inr cs
      \<and> (\<forall>c\<in>set cs. is_dir e c \<longrightarrow>
            path_root c = path_root p
            \<and> on_enter (item_for_child e kw c)
                = SetUserQueryAction (kw @ '' '' @ path_str c @ ''/'')
            \<and> (path_root c \<noteq> [] \<or> \<not> startswith (hd (path_parts c)) ''~'' \<longrightarrow>
                 (\<forall>prefs'. parse_query e prefs' (Some (path_str c @ ''/''))
                    = Inr (c, Some []))))
      \<and> (\<forall>items it q. on_event e prefs kw arg = Inr (RenderResultListAction items)
            \<and> it \<in> set items \<and> on_enter it = SetUserQueryAction q \<longrightarrow>
            (\<exists>c\<in>set cs. is_dir e c \<and> it = item_for_child e kw c
               \<and> q = kw @ '' '' @ path_str c @ ''/'')))"
proof
  assume h: "parse_query e prefs arg = Inr (p, f) \<and> listdir e p = Inr names
    \<and> list_all valid_name names"
  then have pq: "parse_query e prefs arg = Inr (p, f)" by (rule conjunct1)
  from h have l: "listdir e p = Inr names" by (rule conjunct2 [THEN conjunct1])
  from h have v: "list_all valid_name names" by (rule conjunct2 [THEN conjunct2])
  from pq have wp: "wf_path p" by (rule wf_path_parse_query)
  from l obtain cs where sc: "sorted_children e p = Inr cs"
    and set_cs: "set cs = make_child_relpath p ` set names"
    using sorted_children_set by blast
  have child: "\<exists>n. valid_name n \<and> c = make_child_relpath p n" if "c \<in> set cs" for c
  proof -
    from that have "c \<in> make_child_relpath p ` set names" by (simp only: set_cs)
    then obtain n where n: "n \<in> set names" and c: "c = make_child_relpath p n"
      by (rule imageE)
    from v n have "valid_name n" by (simp add: list_all_iff)
    with c show ?thesis by (intro exI [of _ n] conjI)
  qed
  have act: "on_enter (item_for_child e kw c)
      = SetUserQueryAction (kw @ '' '' @ path_str c @ ''/'')" if "is_dir e c" for c
    using that by (simp add: item_for_child_def item_action_def)
  have per_child: "\<forall>c\<in>set cs. is_dir e c \<longrightarrow>
            path_root c = path_root p
            \<and> on_enter (item_for_child e kw c)
                = SetUserQueryAction (kw @ '' '' @ path_str c @ ''/'')
            \<and> (path_root c \<noteq> [] \<or> \<not> startswith (hd (path_parts c)) ''~'' \<longrightarrow>
                 (\<forall>prefs'. parse_query e prefs' (Some (path_str c @ ''/''))
                    = Inr (c, Some [])))"
  proof (intro ballI impI conjI allI)
    fix c assume c: "c \<in> set cs" and d: "is_dir e c"
    from c obtain n where n: "valid_name n" and cn: "c = make_child_relpath p n"
      using child by blast
    show "path_root c = path_root p" by (simp add: cn make_child_relpath_def)
    from d show "on_enter (item_for_child e kw c)
        = SetUserQueryAction (kw @ '' '' @ path_str c @ ''/'')" by (rule act)
    fix prefs' :: preferences
    assume "path_root c \<noteq> [] \<or> \<not> startswith (hd (path_parts c)) ''~''"
    then have t: "path_root c \<noteq> [] \<or> path_parts c = []
        \<or> \<not> startswith (hd (path_parts c)) ''~''" by blast
    from wp n have "wf_path c" unfolding cn by (rule wf_path_child)
    then show "parse_query e prefs' (Some (path_str c @ ''/'')) = Inr (c, Some [])"
      using t by (rule parse_query_dir)
  qed
  have ev: "on_event e prefs kw arg
    = Inr (RenderResultListAction
        ((if \<not> truthy f then [open_folder_item e p] else [])
         @ show_children e kw f (prefs ''fb_show_hidden'' = Some ''Yes'')
             (items_limit_of prefs) 0 cs))"
    using pq sc by (rule on_event_Inr)
  have rw_items: "\<forall>items it q. on_event e prefs kw arg = Inr (RenderResultListAction items)
            \<and> it \<in> set items \<and> on_enter it = SetUserQueryAction q \<longrightarrow>
            (\<exists>c\<in>set cs. is_dir e c \<and> it = item_for_child e kw c
               \<and> q = kw @ '' '' @ path_str c @ ''/'')"
  proof (intro allI impI)
    fix items it q
    assume a: "on_event e prefs kw arg = Inr (RenderResultListAction items)
            \<and> it \<in> set items \<and> on_enter it = SetUserQueryAction q"
    then have "on_event e prefs kw arg = Inr (RenderResultListAction items)"
      by (rule conjunct1)
    then have items: "items = (if \<not> truthy f then [open_folder_item e p] else [])
         @ show_children e kw f (prefs ''fb_show_hidden'' = Some ''Yes'')
             (items_limit_of prefs) 0 cs"
      by (simp only: ev sum.inject response.inject)
    from a have mem: "it \<in> set items" by (rule conjunct2 [THEN conjunct1])
    from a have q: "on_enter it = SetUserQueryAction q" by (rule conjunct2 [THEN conjunct2])
    have "it \<noteq> open_folder_item e p"
    proof
      assume "it = open_folder_item e p"
      with q show False by (simp add: open_folder_item_def)
    qed
    with mem have "it \<in> set (show_children e kw f (prefs ''fb_show_hidden'' = Some ''Yes'')
             (items_limit_of prefs) 0 cs)"
      unfolding items by (cases "truthy f") simp_all
    then have "it \<in> item_for_child e kw ` set cs"
      by (rule subsetD [OF set_show_children])
    then obtain c where c: "c \<in> set cs" and it: "it = item_for_child e kw c"
      by (rule imageE)
    have d: "is_dir e c"
    proof (rule ccontr)
      assume "\<not> is_dir e c"
      then have "on_enter it = OpenAction (path_str c)"
        by (simp add: it item_for_child_def item_action_def)
      with q show False by simp
    qed
    then have "on_enter it = SetUserQueryAction (kw @ '' '' @ path_str c @ ''/'')"
      unfolding it by (rule act)
    with q have "q = kw @ '' '' @ path_str c @ ''/''" by simp
    with c d it show "\<exists>c\<in>set cs. is_dir e c \<and> it = item_for_child e kw c
               \<and> q = kw @ '' '' @ path_str c @ ''/''"
      by (intro bexI [of _ c] conjI)
  qed
  from sc per_child rw_items
  show "\<exists>cs. sorted_children e p = Inr cs
      \<and> (\<forall>c\<in>set cs. is_dir e c \<longrightarrow>
            path_root c = path_root p
            \<and> on_enter (item_for_child e kw c)
                = SetUserQueryAction (kw @ '' '' @ path_str c @ ''/'')
            \<and> (path_root c \<noteq> [] \<or> \<not> startswith (hd (path_parts c)) ''~'' \<longrightarrow>
                 (\<forall>prefs'. parse_query e prefs' (Some (path_str c @ ''/''))
                    = Inr (c, Some []))))
      \<and> (\<forall>items it q. on_event e prefs kw arg = Inr (RenderResultListAction items)
            \<and> it \<in> set items \<and> on_enter it = SetUserQueryAction q \<longrightarrow>
            (\<exists>c\<in>set cs. is_dir e c \<and> it = item_for_child e kw c
               \<and> q = kw @ '' '' @ path_str c @ ''/''))"
    by (intro exI [of _ cs] conjI)
qed

theorem descend_round_trip_witness:
  "parse_query example_env (example_prefs None) None = Inr (Path ''/home/u'', None)
   \<and> listdir example_env (Path ''/home/u'') = Inr [''notes.txt'', ''.profile'', ''docs'', ''Zed'']
   \<and> list_all valid_name [''notes.txt'', ''.profile'', ''docs'', ''Zed'']
   \<and> sorted_children example_env (Path ''/home/u'')
       = Inr [Path ''/home/u/docs'', Path ''/home/u/.profile'', Path ''/home/u/Zed'',
              Path ''/home/u/notes.txt'']
   \<and> is_dir example_env (Path ''/home/u/docs'')
   \<and> path_root (Path ''/home/u/docs'') \<noteq> []
   \<and> on_enter (item_for_child example_env ''f'' (Path ''/home/u/docs''))
       = SetUserQueryAction ''f /home/u/docs/''
   \<and> parse_query example_env (example_prefs None) (Some ''/home/u/docs/'')
       = Inr (Path ''/home/u/docs'', Some [])
   \<and> on_event example_env (example_prefs None) ''f'' None
       = Inr (RenderResultListAction
           [open_folder_item example_env (Path ''/home/u''),
            item_for_child example_env ''f'' (Path ''/home/u/docs''),
            item_for_child example_env ''f'' (Path ''/home/u/Zed''),
            item_for_child example_env ''f'' (Path ''/home/u/notes.txt'')])
   \<and> item_for_child example_env ''f'' (Path ''/home/u/docs'')
       \<in> set [open_folder_item example_env (Path ''/home/u''),
            item_for_child example_env ''f'' (Path ''/home/u/docs''),
            item_for_child example_env ''f'' (Path ''/home/u/Zed''),
            item_for_child example_env ''f'' (Path ''/home/u/notes.txt'')]"
proof -
  define names where "names = [''notes.txt'', ''.profile'', ''docs'', ''Zed'']"
  define sorted_home where
    "sorted_home = [Path ''/home/u/docs'', Path ''/home/u/.profile'', Path ''/home/u/Zed'',
                    Path ''/home/u/notes.txt'']"
  define docs where "docs = Path ''/home/u/docs''"
  define items where
    "items = [open_folder_item example_env (Path ''/home/u''),
            item_for_child example_env ''f'' (Path ''/home/u/docs''),
            item_for_child example_env ''f'' (Path ''/home/u/Zed''),
            item_for_child example_env ''f'' (Path ''/home/u/notes.txt'')]"
  have p: "parse_query example_env (example_prefs None) None = Inr (Path ''/home/u'', None)"
    by (rule example_parse_None)
  have l: "listdir example_env (Path ''/home/u'') = Inr names"
    unfolding names_def by code_simp
  have v: "list_all valid_name names" unfolding names_def by code_simp
  have sh: "sorted_children example_env (Path ''/home/u'') = Inr sorted_home"
    unfolding sorted_home_def by (rule example_sorted_home)
  have hyp: "parse_query example_env (example_prefs None) None = Inr (Path ''/home/u'', None)
      \<and> listdir example_env (Path ''/home/u'') = Inr names \<and> list_all valid_name names"
    using p l v by (intro conjI)
  obtain cs where sc: "sorted_children example_env (Path ''/home/u'') = Inr cs"
    and pc: "\<forall>c\<in>set cs. is_dir example_env c \<longrightarrow>
            path_root c = path_root (Path ''/home/u'')
            \<and> on_enter (item_for_child example_env ''f'' c)
                = SetUserQueryAction (''f'' @ '' '' @ path_str c @ ''/'')
            \<and> (path_root c \<noteq> [] \<or> \<not> startswith (hd (path_parts c)) ''~'' \<longrightarrow>
                 (\<forall>prefs'. parse_query example_env prefs' (Some (path_str c @ ''/''))
                    = Inr (c, Some [])))"
    using descend_round_trip [of example_env "example_prefs None" None "Path ''/home/u''"
        None names "''f''", THEN mp, OF hyp]
    by (elim exE conjE)
  have cs: "cs = sorted_home" using sc sh by (simp only: sum.inject)
  have mem: "docs \<in> set cs" unfolding cs sorted_home_def docs_def by simp
  have d: "is_dir example_env docs" unfolding docs_def by code_simp
  have r: "path_root docs \<noteq> []" unfolding docs_def by code_simp
  then have r': "path_root docs \<noteq> [] \<or> \<not> startswith (hd (path_parts docs)) ''~''"
    by (rule disjI1)
  note c = pc [THEN bspec, OF mem, THEN mp, OF d]
  have s1: "''f'' @ '' '' @ path_str docs @ ''/'' = ''f /home/u/docs/''"
    unfolding docs_def by code_simp
  have s2: "path_str docs @ ''/'' = ''/home/u/docs/''"
    unfolding docs_def by code_simp
  have a: "on_enter (item_for_child example_env ''f'' docs)
      = SetUserQueryAction ''f /home/u/docs/''"
    using c [THEN conjunct2, THEN conjunct1] by (simp only: s1)
  have b: "parse_query example_env (example_prefs None) (Some ''/home/u/docs/'')
      = Inr (docs, Some [])"
    using c [THEN conjunct2, THEN conjunct2, THEN mp, OF r', THEN spec, of "example_prefs None"]
    by (simp only: s2)
  have ev: "on_event example_env (example_prefs None) ''f'' None
      = Inr (RenderResultListAction items)"
    unfolding items_def by code_simp
  have im: "item_for_child example_env ''f'' docs \<in> set items"
    unfolding items_def docs_def by simp
  from p l v sh d r a b ev im show ?thesis
    unfolding names_def sorted_home_def docs_def items_def by (intro conjI)
qed

theorem descend_tilde_counterexample:
  "on_event example_env (example_prefs None) ''f'' (Some ''./'')
     = Inr (RenderResultListAction
         [open_folder_item example_env (PurePath [] []),
          \<lparr>icon = ''images/default_folder.png'', name = ''~'',
            on_enter = SetUserQueryAction ''f ~/''\<rparr>])
   \<and> parse_query example_env (example_prefs None) (Some ''./'') = Inr (PurePath [] [], Some [])
   \<and> sorted_children example_env (PurePath [] []) = Inr [PurePath [] [''~'']]
   \<and> is_dir example_env (PurePath [] [''~''])
   \<and> item_for_child example_env ''f'' (PurePath [] [''~''])
       = \<lparr>icon = ''images/default_folder.png'', name = ''~'',
           on_enter = SetUserQueryAction ''f ~/''\<rparr>
   \<and> parse_query example_env (example_prefs None) (Some ''~/'')
       = Inr (PurePath ''/'' [''home'', ''u''], Some [])
   \<and> PurePath ''/'' [''home'', ''u''] \<noteq> PurePath [] [''~'']"
  by code_simp

end
